theory Spec2Isabelle
  imports Main "HOL-Library.Multiset"
begin

section \<open>A model of ThreadPool.h\<close>

text \<open>
  The header is the second part of src/README.md, whose line numbers are used below.

  The pool is a shared state (\<open>workers\<close>, \<open>tasks\<close>, \<open>stop\<close>) that several threads
  touch only while holding \<open>queue_mutex\<close>. Every critical section of the source is
  therefore one atomic step of the model, and a run of the program is a list of such
  steps in the order in which the mutex was taken. \<open>condition\<close> is modelled by the set
  of workers whose control point is \<open>Blocked\<close>. A user callable is a function that
  returns a value or throws; it does not read the pool, and a task that submits further
  tasks is a run in which the submissions happen while a worker executes it.
\<close>

subsection \<open>Callables, packaged tasks and futures\<close>

type_synonym tid = nat

text \<open>
  An exception: one thrown by a user callable, or the \<open>std::future_error\<close> with
  \<open>broken_promise\<close> that the library stores when a task object is destroyed before it
  was invoked.
\<close>

datatype exn = Thrown string | Broken_promise

text \<open>What invoking a user callable does: it returns a value or throws.\<close>

datatype 'v outcome = Value 'v | Failure exn

text \<open>The shared state of a \<open>std::packaged_task\<close> and its \<open>std::future\<close>.\<close>

datatype 'v cell = Pending | Ready "'v outcome"

text \<open>
  \<open>std::packaged_task<return_type()>\<close> built from \<open>std::bind(f, args...)\<close>: the bound
  zero-argument callable and the shared state.
\<close>

record 'v packaged_task =
  callable :: "unit \<Rightarrow> 'v outcome"
  shared :: "'v cell"

text \<open>
  \<open>packaged_task::operator()\<close>: runs the callable and stores its value or the exception
  it threw in the shared state. Invoking a task whose shared state is already set throws
  \<open>std::future_error\<close> out of the call; that is the result \<open>None\<close>.
\<close>

definition invoke :: "'v packaged_task \<Rightarrow> 'v packaged_task option" where
  "invoke p = (case shared p of
       Pending \<Rightarrow> Some (p\<lparr>shared := Ready (callable p ())\<rparr>)
     | Ready r \<Rightarrow> None)"

text \<open>
  \<open>~packaged_task()\<close> abandons the shared state: a state that is not ready is made ready
  with the exception \<open>broken_promise\<close>, so that a reader of the future does not wait for
  a task that can no longer run.
\<close>

definition abandon :: "'v packaged_task \<Rightarrow> 'v packaged_task" where
  "abandon p = (case shared p of
       Pending \<Rightarrow> p\<lparr>shared := Ready (Failure Broken_promise)\<rparr>
     | Ready r \<Rightarrow> p)"

text \<open>
  \<open>std::future<return_type>\<close>: a reference to the shared state of the task with the
  given identity, and \<open>valid()\<close>.
\<close>

record future =
  state_of :: tid
  valid :: bool

text \<open>What a call of \<open>get()\<close> does: it waits, returns a value, rethrows, or finds no state.\<close>

datatype 'v got = Blocks | Returns 'v | Rethrows exn | No_state

subsection \<open>The pool\<close>

text \<open>
  The control point of one worker thread (the lambda of lines 65 to 81):
  \<open>Acquire\<close>: holds or is about to take the lock and evaluates the wait predicate
  (line 70 to 72, also after every wake-up); \<open>Blocked\<close>: inside \<open>condition.wait\<close> with
  the lock released; \<open>Running t\<close>: at \<open>task()\<close> in line 79 with task \<open>t\<close>;
  \<open>Exited\<close>: returned in line 74; \<open>Crashed\<close>: an exception left \<open>task()\<close>.
\<close>

datatype wstate = Acquire | Blocked | Running tid | Exited | Crashed

text \<open>
  The control point of the destructor (lines 117 to 125): not called; flag set (line
  120) and \<open>notify_all\<close> still to come; in the join loop with the first \<open>k\<close> workers
  joined; returned.
\<close>

datatype dstate = Alive | Stopped | Joining nat | Returned

text \<open>
  The members of the class (\<open>workers\<close>, \<open>tasks\<close>, \<open>stop\<close>), the task objects made by
  \<open>std::make_shared\<close> (\<open>heap\<close>, \<open>next_id\<close>), the number of callers that have pushed a
  task and not yet called \<open>notify_one\<close> (\<open>owed\<close>), the destructor's control point, and
  four history logs that the program does not have: the tasks pushed, the tasks
  dequeued with the index of the dequeuing worker, the tasks whose invocation has
  finished, and the tasks that were destroyed with the queue, each in order.
\<close>

record 'v pool =
  workers :: "wstate list"
  tasks :: "tid list"
  stop :: bool
  heap :: "tid \<rightharpoonup> 'v packaged_task"
  next_id :: tid
  owed :: nat
  dtor :: dstate
  accepted :: "tid list"
  claimed :: "(nat \<times> tid) list"
  executed :: "tid list"
  abandoned :: "tid list"

datatype error = PoolClosed

text \<open>The constructor (lines 61 to 83): \<open>stop(false)\<close> and \<open>threads\<close> workers at the loop head.\<close>

definition ThreadPool :: "nat \<Rightarrow> 'v pool" where
  "ThreadPool threads =
     \<lparr>workers = replicate threads Acquire, tasks = [], stop = False,
      heap = Map.empty, next_id = 0, owed = 0, dtor = Alive,
      accepted = [], claimed = [], executed = [], abandoned = []\<rparr>"

subsection \<open>enqueue\<close>

text \<open>Lines 95 to 99: the task object is made from the bound callable, then its future.\<close>

definition make_task :: "('a \<Rightarrow> 'v outcome) \<Rightarrow> 'a \<Rightarrow> 'v pool \<Rightarrow> (tid \<times> future) \<times> 'v pool" where
  "make_task f args s =
     ((next_id s, \<lparr>state_of = next_id s, valid = True\<rparr>),
      s\<lparr>heap := (heap s)(next_id s \<mapsto> \<lparr>callable = (\<lambda>_. f args), shared = Pending\<rparr>),
        next_id := Suc (next_id s)\<rparr>)"

text \<open>
  Lines 100 to 109, under the lock: a stopped pool throws, and unwinding destroys the
  task object and the future; otherwise the task goes to the back of the queue.
\<close>

definition publish :: "tid \<Rightarrow> 'v pool \<Rightarrow> (error + unit) \<times> 'v pool" where
  "publish t s =
     (if stop s then (Inl PoolClosed, s\<lparr>heap := (heap s)(t := None)\<rparr>)
      else (Inr (), s\<lparr>tasks := tasks s @ [t], owed := Suc (owed s),
                      accepted := accepted s @ [t]\<rparr>))"

text \<open>Lines 95 to 109 together.\<close>

definition submit :: "('a \<Rightarrow> 'v outcome) \<Rightarrow> 'a \<Rightarrow> 'v pool \<Rightarrow> (error + future) \<times> 'v pool" where
  "submit f args s =
     (case make_task f args s of ((t, res), s1) \<Rightarrow>
        (case publish t s1 of
           (Inl e, s2) \<Rightarrow> (Inl e, s2)
         | (Inr u, s2) \<Rightarrow> (Inr res, s2)))"

text \<open>
  \<open>condition.notify_one()\<close>: if any worker is blocked, one of them is unblocked; which
  one is the implementation's choice, here worker \<open>w\<close> if it is blocked and the first
  blocked worker otherwise.
\<close>

fun first_blocked :: "wstate list \<Rightarrow> nat option" where
  "first_blocked [] = None"
| "first_blocked (x # xs) =
     (if x = Blocked then Some 0 else map_option Suc (first_blocked xs))"

definition pick_waiter :: "nat \<Rightarrow> wstate list \<Rightarrow> nat option" where
  "pick_waiter w ws =
     (if w < length ws \<and> ws ! w = Blocked then Some w else first_blocked ws)"

definition notify_one :: "nat \<Rightarrow> 'v pool \<Rightarrow> 'v pool" where
  "notify_one w s =
     (case pick_waiter w (workers s) of
        None \<Rightarrow> s\<lparr>owed := owed s - 1\<rparr>
      | Some i \<Rightarrow> s\<lparr>workers := (workers s)[i := Acquire], owed := owed s - 1\<rparr>)"

text \<open>The whole of \<open>enqueue\<close> (lines 88 to 114) run without interruption.\<close>

definition enqueue :: "('a \<Rightarrow> 'v outcome) \<Rightarrow> 'a \<Rightarrow> nat \<Rightarrow> 'v pool \<Rightarrow> (error + future) \<times> 'v pool" where
  "enqueue f args w s =
     (case submit f args s of
        (Inl e, s1) \<Rightarrow> (Inl e, s1)
      | (Inr res, s1) \<Rightarrow> (Inr res, notify_one w s1))"

text \<open>
  The parameters of \<open>enqueue\<close> are forwarding references (\<open>F &&f, Args &&... args\<close>),
  so each of them is bound to an object of the caller, which the caller passed as an
  lvalue or as an rvalue. After the call the caller's object is intact, or it has been
  moved from and holds an unspecified value.
\<close>

datatype 'x passed = Lvalue 'x | Rvalue 'x

datatype 'x source = Intact 'x | Moved_from

fun passed_value :: "'x passed \<Rightarrow> 'x" where
  "passed_value (Lvalue v) = v"
| "passed_value (Rvalue v) = v"

text \<open>
  Line 96, \<open>std::bind(std::forward<F>(f), std::forward<Args>(args)...)\<close>: the binder
  stores its own object for each parameter, copied from an lvalue and moved out of an
  rvalue. The result is the stored value and what is left in the hands of the caller.
\<close>

fun forward_into :: "'x passed \<Rightarrow> 'x \<times> 'x source" where
  "forward_into (Lvalue v) = (v, Intact v)"
| "forward_into (Rvalue v) = (v, Moved_from)"

text \<open>
  A call of \<open>enqueue\<close> that has run lines 95 to 99 and has not yet taken the lock: the
  caller's two objects as the forwarding left them, and the locals \<open>task\<close> and \<open>res\<close>.
\<close>

record ('a, 'v) call =
  f_after :: "('a \<Rightarrow> 'v outcome) source"
  args_after :: "'a source"
  call_task :: tid
  call_res :: future

text \<open>Lines 95 to 99, seen from the caller: nothing here reads the stop flag.\<close>

definition enqueue_begin ::
  "('a \<Rightarrow> 'v outcome) passed \<Rightarrow> 'a passed \<Rightarrow> 'v pool \<Rightarrow> ('a, 'v) call \<times> 'v pool" where
  "enqueue_begin f args s =
     (case forward_into f of (fv, f') \<Rightarrow>
      case forward_into args of (av, args') \<Rightarrow>
      case make_task fv av s of ((t, r), s1) \<Rightarrow>
        (\<lparr>f_after = f', args_after = args', call_task = t, call_res = r\<rparr>, s1))"

text \<open>Lines 100 to 113: the check of the flag under the lock, the push, the wake-up.\<close>

definition enqueue_finish :: "('a, 'v) call \<Rightarrow> nat \<Rightarrow> 'v pool \<Rightarrow> (error + future) \<times> 'v pool" where
  "enqueue_finish c w s =
     (case publish (call_task c) s of
        (Inl e, s2) \<Rightarrow> (Inl e, s2)
      | (Inr u, s2) \<Rightarrow> (Inr (call_res c), notify_one w s2))"

text \<open>
  The whole call as the caller sees it: the future or the error, and the caller's callable
  and argument after the call.
\<close>

definition enqueue_call ::
  "('a \<Rightarrow> 'v outcome) passed \<Rightarrow> 'a passed \<Rightarrow> nat \<Rightarrow> 'v pool \<Rightarrow>
     ((error + future) \<times> ('a \<Rightarrow> 'v outcome) source \<times> 'a source) \<times> 'v pool" where
  "enqueue_call f args w s =
     (case enqueue_begin f args s of (c, s1) \<Rightarrow>
      case enqueue_finish c w s1 of (r, s2) \<Rightarrow> ((r, f_after c, args_after c), s2))"

subsection \<open>std::future::get\<close>

text \<open>
  \<open>get()\<close> waits until the shared state is ready, hands out the value or rethrows the
  stored exception, and leaves the future with \<open>valid() == false\<close>. On a future that is
  not valid the standard leaves the behaviour undefined (implementations are asked to
  throw \<open>future_error\<close> with \<open>no_state\<close>); that is the result \<open>No_state\<close>. A caller that
  waits is the result \<open>Blocks\<close>, with the future unchanged.
\<close>

definition future_get :: "'v pool \<Rightarrow> future \<Rightarrow> 'v got \<times> future" where
  "future_get s h =
     (if \<not> valid h then (No_state, h)
      else (case heap s (state_of h) of
              None \<Rightarrow> (No_state, h)
            | Some p \<Rightarrow>
                (case shared p of
                   Pending \<Rightarrow> (Blocks, h)
                 | Ready (Value v) \<Rightarrow> (Returns v, h\<lparr>valid := False\<rparr>)
                 | Ready (Failure e) \<Rightarrow> (Rethrows e, h\<lparr>valid := False\<rparr>))))"

subsection \<open>The worker loop\<close>

text \<open>
  Lines 70 to 77, run by worker \<open>i\<close> with the lock held: a false wait predicate blocks
  the worker; a stopped pool with an empty queue ends it; otherwise the front task is
  moved out of the queue.
\<close>

definition worker_lock :: "nat \<Rightarrow> 'v pool \<Rightarrow> 'v pool" where
  "worker_lock i s =
     (if \<not> (stop s \<or> tasks s \<noteq> []) then s\<lparr>workers := (workers s)[i := Blocked]\<rparr>
      else if stop s \<and> tasks s = [] then s\<lparr>workers := (workers s)[i := Exited]\<rparr>
      else s\<lparr>workers := (workers s)[i := Running (hd (tasks s))],
             tasks := tl (tasks s),
             claimed := claimed s @ [(i, hd (tasks s))]\<rparr>)"

text \<open>
  Line 79, \<open>task()\<close>: the queued lambda invokes the packaged task it holds. An exception
  that leaves the call ends the thread function abnormally.
\<close>

definition worker_run :: "nat \<Rightarrow> tid \<Rightarrow> 'v pool \<Rightarrow> 'v pool" where
  "worker_run i t s =
     (case heap s t of
        None \<Rightarrow> s\<lparr>workers := (workers s)[i := Crashed]\<rparr>
      | Some p \<Rightarrow>
          (case invoke p of
             None \<Rightarrow> s\<lparr>workers := (workers s)[i := Crashed]\<rparr>
           | Some p' \<Rightarrow> s\<lparr>workers := (workers s)[i := Acquire],
                           heap := (heap s)(t \<mapsto> p'),
                           executed := executed s @ [t]\<rparr>))"

subsection \<open>The destructor\<close>

text \<open>Lines 118 to 121.\<close>

definition dtor_stop :: "'v pool \<Rightarrow> 'v pool" where
  "dtor_stop s = s\<lparr>stop := True, dtor := Stopped\<rparr>"

text \<open>Line 122: every blocked worker is unblocked.\<close>

definition wake :: "wstate \<Rightarrow> wstate" where
  "wake w = (if w = Blocked then Acquire else w)"

definition notify_all :: "'v pool \<Rightarrow> 'v pool" where
  "notify_all s = s\<lparr>workers := map wake (workers s), dtor := Joining 0\<rparr>"

text \<open>
  After the body of the destructor the members of the pool are destroyed, among them the
  queue: the lambdas still in it hold the only reference to their task objects, which are
  destroyed with them.
\<close>

definition destroy_members :: "'v pool \<Rightarrow> 'v pool" where
  "destroy_members s =
     s\<lparr>heap := (\<lambda>t. if t \<in> set (tasks s) then map_option abandon (heap s t) else heap s t),
       tasks := [],
       abandoned := abandoned s @ tasks s\<rparr>"

text \<open>
  Lines 123 and 124: \<open>join\<close> of worker \<open>k\<close> returns once that thread has ended; after
  the last worker the body is done, the members are destroyed and the destructor returns.
\<close>

definition dtor_join :: "'v pool \<Rightarrow> 'v pool option" where
  "dtor_join s =
     (case dtor s of
        Joining k \<Rightarrow>
          (if k < length (workers s)
           then (if workers s ! k = Exited then Some (s\<lparr>dtor := Joining (Suc k)\<rparr>) else None)
           else Some ((destroy_members s)\<lparr>dtor := Returned\<rparr>))
      | _ \<Rightarrow> None)"

subsection \<open>Runs\<close>

text \<open>
  The atomic steps. \<open>Submit\<close> is lines 95 to 109 of one call of \<open>enqueue\<close> (making the
  task object touches nothing shared, so it is taken together with the critical
  section that follows it) and \<open>Notify\<close> its line 111; \<open>Spurious\<close> is a wake-up of a
  blocked worker that nobody asked for; \<open>Lock\<close> and \<open>Run\<close> are the two halves of one
  iteration of a worker; the last three are the destructor. A step that the thread
  cannot take in the state is \<open>None\<close>. No member function is called on a pool whose
  destructor has returned.
\<close>

datatype ('a, 'v) event =
    Submit "'a \<Rightarrow> 'v outcome" 'a
  | Notify nat
  | Spurious nat
  | Lock nat
  | Run nat
  | Dtor_stop
  | Dtor_notify
  | Dtor_join

fun step :: "('a, 'v) event \<Rightarrow> 'v pool \<Rightarrow> 'v pool option" where
  "step (Submit f args) s =
     (if dtor s = Returned then None else Some (snd (submit f args s)))"
| "step (Notify w) s =
     (if owed s = 0 then None else Some (notify_one w s))"
| "step (Spurious i) s =
     (if i < length (workers s) \<and> workers s ! i = Blocked
      then Some (s\<lparr>workers := (workers s)[i := Acquire]\<rparr>) else None)"
| "step (Lock i) s =
     (if i < length (workers s) \<and> workers s ! i = Acquire
      then Some (worker_lock i s) else None)"
| "step (Run i) s =
     (if i < length (workers s)
      then (case workers s ! i of Running t \<Rightarrow> Some (worker_run i t s) | _ \<Rightarrow> None)
      else None)"
| "step Dtor_stop s = (if dtor s = Alive then Some (dtor_stop s) else None)"
| "step Dtor_notify s = (if dtor s = Stopped then Some (notify_all s) else None)"
| "step Dtor_join s = dtor_join s"

fun exec :: "('a, 'v) event list \<Rightarrow> 'v pool \<Rightarrow> 'v pool option" where
  "exec [] s = Some s"
| "exec (e # es) s = (case step e s of None \<Rightarrow> None | Some s' \<Rightarrow> exec es s')"

text \<open>The tasks that workers are executing.\<close>

fun running :: "wstate list \<Rightarrow> tid list" where
  "running [] = []"
| "running (Running t # ws) = t # running ws"
| "running (w # ws) = running ws"

subsection \<open>example.cpp\<close>

text \<open>\<open>f\<close> of example.cpp: it returns its argument (the sleep and the output are left out).\<close>

definition f_example :: "int \<Rightarrow> int outcome" where
  "f_example a = Value a"

subsection \<open>Invariants of runs\<close>

text \<open>
  The queue holds the pushed tasks that no worker has taken yet, in the order of the
  pushes, until it is destroyed; task identities are fresh; a dequeued task is either
  being executed by a worker or has been executed; the shared state of a task holds the
  result of its callable when its invocation has finished, \<open>broken_promise\<close> when it was
  destroyed with the queue, and is not ready otherwise; and the control points of the
  workers and of the destructor fit the stop flag.
\<close>

definition inv_fifo :: "'v pool \<Rightarrow> bool" where
  "inv_fifo s \<longleftrightarrow> map snd (claimed s) @ tasks s @ abandoned s = accepted s"

definition inv_ids :: "'v pool \<Rightarrow> bool" where
  "inv_ids s \<longleftrightarrow> distinct (accepted s) \<and> (\<forall>t\<in>set (accepted s). t < next_id s)"

definition inv_part :: "'v pool \<Rightarrow> bool" where
  "inv_part s \<longleftrightarrow>
     mset (map snd (claimed s)) = mset (executed s) + mset (running (workers s))"

definition inv_heap :: "'v pool \<Rightarrow> bool" where
  "inv_heap s \<longleftrightarrow>
     (\<forall>t\<in>set (accepted s). \<exists>p. heap s t = Some p \<and>
        shared p = (if t \<in> set (executed s) then Ready (callable p ())
                    else if t \<in> set (abandoned s) then Ready (Failure Broken_promise)
                    else Pending))"

definition inv_ctl :: "nat \<Rightarrow> 'v pool \<Rightarrow> bool" where
  "inv_ctl n s \<longleftrightarrow>
     length (workers s) = n \<and> Crashed \<notin> set (workers s) \<and>
     (stop s \<longleftrightarrow> dtor s \<noteq> Alive) \<and>
     (Exited \<in> set (workers s) \<longrightarrow> stop s \<and> tasks s = [] \<and> abandoned s = []) \<and>
     (dtor s \<noteq> Returned \<longrightarrow> abandoned s = []) \<and>
     (\<forall>k. dtor s = Joining k \<longrightarrow>
        k \<le> n \<and> (\<forall>j<k. workers s ! j = Exited) \<and> Blocked \<notin> set (workers s)) \<and>
     (dtor s = Returned \<longrightarrow> (\<forall>w\<in>set (workers s). w = Exited)) \<and>
     (\<forall>c\<in>set (claimed s). fst c < n)"

definition pool_inv :: "nat \<Rightarrow> 'v pool \<Rightarrow> bool" where
  "pool_inv n s \<longleftrightarrow> inv_fifo s \<and> inv_ids s \<and> inv_part s \<and> inv_heap s \<and> inv_ctl n s"

subsection \<open>Progress\<close>

text \<open>
  The workers that are awake (at the head of the loop or executing a task), and the
  invariant that no wake-up is lost: while a worker is blocked, every queued task is
  matched by a \<open>notify_one\<close> that is still to come or by a worker that is awake.
\<close>

fun awake :: "wstate list \<Rightarrow> nat" where
  "awake [] = 0"
| "awake (Acquire # ws) = Suc (awake ws)"
| "awake (Running t # ws) = Suc (awake ws)"
| "awake (w # ws) = awake ws"

definition inv_wake :: "'v pool \<Rightarrow> bool" where
  "inv_wake s \<longleftrightarrow>
     (Blocked \<in> set (workers s) \<longrightarrow> length (tasks s) \<le> owed s + awake (workers s))"

text \<open>What the workers still have to do before they can end, once the stop flag is set.\<close>

fun weight :: "wstate list \<Rightarrow> nat" where
  "weight [] = 0"
| "weight (Acquire # ws) = Suc (weight ws)"
| "weight (Running t # ws) = Suc (Suc (weight ws))"
| "weight (w # ws) = weight ws"

subsection \<open>Sample runs\<close>

text \<open>
  One worker and three tasks, submitted before the worker takes the first one; the
  destructor runs when all three are done.
\<close>

definition run1 :: "(int, int) event list" where
  "run1 = [Submit f_example 1, Notify 0, Submit f_example 2, Notify 0, Submit f_example 3, Notify 0,
           Lock 0, Run 0, Lock 0, Run 0, Lock 0, Run 0,
           Dtor_stop, Dtor_notify, Lock 0, Dtor_join, Dtor_join]"

text \<open>A pool without workers: tasks are submitted, then the destructor runs.\<close>

definition zero_run1 :: "(int, int) event list" where
  "zero_run1 = [Submit f_example 1, Notify 0, Dtor_stop, Dtor_notify, Dtor_join]"

definition zero_run2 :: "(int, int) event list" where
  "zero_run2 = [Submit f_example 1, Notify 0, Submit f_example 2, Notify 0,
                Dtor_stop, Dtor_notify, Dtor_join]"

text \<open>
  \<open>main\<close> of example.cpp: a pool of four workers, which first block on the empty
  queue; four calls of \<open>enqueue\<close>; the workers take and execute the tasks, the third
  and fourth finishing first (\<open>main_work\<close>, after which \<open>main\<close> reads \<open>ret\<close>); then
  the destructor at the end of \<open>main\<close>.
\<close>

definition main_work :: "(int, int) event list" where
  "main_work =
     [Lock 0, Lock 1, Lock 2, Lock 3,
      Submit f_example 1, Notify 0, Submit f_example 2, Notify 1,
      Lock 0, Submit f_example 3, Lock 1, Notify 2, Submit f_example 4, Notify 3,
      Lock 2, Lock 3, Run 2, Run 3, Lock 2, Lock 3, Run 0, Run 1]"

definition main_events :: "(int, int) event list" where
  "main_events =
     main_work @
     [Dtor_stop, Lock 0, Lock 1, Dtor_notify, Lock 2, Lock 3,
      Dtor_join, Dtor_join, Dtor_join, Dtor_join, Dtor_join]"

text \<open>A pool of one worker whose destructor has just set the stop flag.\<close>

definition stopped_pool :: "int pool" where
  "stopped_pool = dtor_stop (ThreadPool 1)"

text \<open>
  A pool of one worker with one task in the queue, whose destructor has just set the
  stop flag.
\<close>

definition draining_pool :: "int pool" where
  "draining_pool = dtor_stop (snd (enqueue f_example 1 0 (ThreadPool 1)))"

text \<open>The same pool after its worker has taken the task and before it executes it.\<close>

definition executing_pool :: "int pool" where
  "executing_pool = worker_lock 0 draining_pool"

text \<open>
  A pool of one worker that went to wait on the empty queue; a caller has pushed a task
  and has not yet called \<open>notify_one\<close>.
\<close>

definition waiting_pool :: "int pool" where
  "waiting_pool = snd (submit f_example 1 (worker_lock 0 (ThreadPool 1)))"

text \<open>A callable that throws, and a pool of one worker that is about to invoke it.\<close>

definition f_failing :: "int \<Rightarrow> int outcome" where
  "f_failing a = Failure (Thrown ''task failed'')"

definition failing_pool :: "int pool" where
  "failing_pool =
     worker_lock 0 (snd (enqueue f_example 2 0 (snd (enqueue f_failing 1 0 (ThreadPool 1)))))"

text \<open>
  The state in which \<open>main\<close> calls \<open>ret.get()\<close>, and the future \<open>ret\<close> of its first
  \<open>enqueue\<close>.
\<close>

definition main_final :: "int pool" where
  "main_final = the (exec main_work (ThreadPool 4))"

definition ret :: future where
  "ret = \<lparr>state_of = 0, valid = True\<rparr>"

text \<open>
  The steps of the destructor of a pool of \<open>n\<close> workers: the flag, \<open>notify_all\<close>,
  one \<open>join\<close> for each worker, and the return.
\<close>

definition dtor_events :: "nat \<Rightarrow> ('a, 'v) event list" where
  "dtor_events n = Dtor_stop # Dtor_notify # replicate (Suc n) Dtor_join"

section \<open>Basic facts\<close>

lemma destroy_members_simps [simp]:
  "workers (destroy_members s) = workers s"
  "stop (destroy_members s) = stop s"
  "next_id (destroy_members s) = next_id s"
  "owed (destroy_members s) = owed s"
  "dtor (destroy_members s) = dtor s"
  "accepted (destroy_members s) = accepted s"
  "claimed (destroy_members s) = claimed s"
  "executed (destroy_members s) = executed s"
  "tasks (destroy_members s) = []"
  "abandoned (destroy_members s) = abandoned s @ tasks s"
  by (simp_all add: destroy_members_def)

lemma heap_destroy_members:
  "heap (destroy_members s) t =
     (if t \<in> set (tasks s) then map_option abandon (heap s t) else heap s t)"
  by (simp add: destroy_members_def)

lemma abandon_simps [simp]:
  "callable (abandon p) = callable p"
  "shared p = Pending \<Longrightarrow> shared (abandon p) = Ready (Failure Broken_promise)"
  "shared p = Ready r \<Longrightarrow> shared (abandon p) = Ready r"
  by (simp_all add: abandon_def split: cell.splits)

lemma running_mem: "t \<in> set (running ws) \<longleftrightarrow> Running t \<in> set ws"
  by (induction ws rule: running.induct) auto

lemma running_update:
  "i < length ws \<Longrightarrow>
   mset (running (ws[i := w])) + mset (running [ws ! i]) = mset (running ws) + mset (running [w])"
proof (induction ws arbitrary: i)
  case Nil
  then show ?case by simp
next
  case (Cons x xs)
  show ?case
  proof (cases i)
    case 0
    then show ?thesis by (cases x; cases w) simp_all
  next
    case (Suc j)
    with Cons.prems have "j < length xs" by simp
    from Cons.IH[OF this] Suc show ?thesis by (cases x) simp_all
  qed
qed

lemma first_blocked_Some: "first_blocked ws = Some i \<Longrightarrow> i < length ws \<and> ws ! i = Blocked"
  by (induction ws arbitrary: i) (auto split: if_splits)

lemma first_blocked_None: "first_blocked ws = None \<longleftrightarrow> Blocked \<notin> set ws"
  by (induction ws) auto

lemma pick_waiter_Some: "pick_waiter w ws = Some i \<Longrightarrow> i < length ws \<and> ws ! i = Blocked"
  by (auto simp: pick_waiter_def first_blocked_Some split: if_splits)

lemma pick_waiter_None: "pick_waiter w ws = None \<longleftrightarrow> Blocked \<notin> set ws"
  by (auto simp: pick_waiter_def first_blocked_None dest: nth_mem split: if_splits)

lemma running_wake: "running (map wake ws) = running ws"
  by (induction ws rule: running.induct) (auto simp: wake_def)

lemma running_to_idle:
  assumes "i < length ws" "ws ! i = Running t" "running [w] = []"
  shows "mset (running ws) = add_mset t (mset (running (ws[i := w])))"
  using running_update[OF assms(1), of w] assms(2,3) by simp

lemma running_from_idle:
  assumes "i < length ws" "running [ws ! i] = []"
  shows "mset (running (ws[i := Running t])) = add_mset t (mset (running ws))"
  using running_update[OF assms(1), of "Running t"] assms(2) by simp

lemma running_idle_idle:
  assumes "i < length ws" "running [ws ! i] = []" "running [w] = []"
  shows "mset (running (ws[i := w])) = mset (running ws)"
  using running_update[OF assms(1), of w] assms(2,3) by simp

section \<open>The invariants hold in every run\<close>

lemma inv_fifo_frame:
  "inv_fifo s \<Longrightarrow> accepted s' = accepted s \<Longrightarrow> claimed s' = claimed s \<Longrightarrow>
   tasks s' = tasks s \<Longrightarrow> abandoned s' = abandoned s \<Longrightarrow> inv_fifo s'"
  by (simp add: inv_fifo_def)

lemma inv_ids_frame:
  "inv_ids s \<Longrightarrow> accepted s' = accepted s \<Longrightarrow> next_id s' = next_id s \<Longrightarrow> inv_ids s'"
  by (simp add: inv_ids_def)

lemma inv_part_frame:
  "inv_part s \<Longrightarrow> claimed s' = claimed s \<Longrightarrow> executed s' = executed s \<Longrightarrow>
   mset (running (workers s')) = mset (running (workers s)) \<Longrightarrow> inv_part s'"
  by (simp add: inv_part_def)

lemma inv_heap_frame:
  assumes "inv_heap s"
    and e: "accepted s' = accepted s" "heap s' = heap s" "executed s' = executed s"
      "abandoned s' = abandoned s"
  shows "inv_heap s'"
  using assms(1) unfolding inv_heap_def e .

lemma inv_ctl_frame:
  assumes "inv_ctl n s"
    and e: "workers s' = workers s" "stop s' = stop s" "tasks s' = tasks s"
      "dtor s' = dtor s" "claimed s' = claimed s" "abandoned s' = abandoned s"
  shows "inv_ctl n s'"
  using assms(1) unfolding inv_ctl_def e .

lemma running_replicate: "running (replicate n Acquire) = []"
  by (induction n) auto

lemma inv_init: "pool_inv n (ThreadPool n)"
  by (simp add: pool_inv_def inv_fifo_def inv_ids_def inv_part_def inv_heap_def inv_ctl_def
      ThreadPool_def running_replicate)

lemma submit_cases:
  "submit f a s =
     (if stop s
      then (Inl PoolClosed, s\<lparr>heap := (heap s)(next_id s := None), next_id := Suc (next_id s)\<rparr>)
      else (Inr \<lparr>state_of = next_id s, valid = True\<rparr>,
            s\<lparr>heap := (heap s)(next_id s \<mapsto> \<lparr>callable = (\<lambda>_. f a), shared = Pending\<rparr>),
              next_id := Suc (next_id s),
              tasks := tasks s @ [next_id s], owed := Suc (owed s),
              accepted := accepted s @ [next_id s]\<rparr>))"
  by (simp add: submit_def make_task_def publish_def)

lemma fifoD: "inv_fifo s \<Longrightarrow> accepted s = map snd (claimed s) @ tasks s @ abandoned s"
  by (simp add: inv_fifo_def)

lemma executed_accepted:
  assumes "inv_fifo s" "inv_part s" "t \<in> set (executed s)"
  shows "t \<in> set (accepted s)"
proof -
  from assms(3) have "t \<in># mset (executed s) + mset (running (workers s))" by simp
  with assms(2) have "t \<in># mset (map snd (claimed s))" by (simp add: inv_part_def)
  then have "t \<in> set (map snd (claimed s) @ tasks s @ abandoned s)" by simp
  with assms(1) show ?thesis unfolding inv_fifo_def by metis
qed

lemma fifo_submit: "inv_fifo s \<Longrightarrow> stop s \<or> abandoned s = [] \<Longrightarrow> inv_fifo (snd (submit f a s))"
  by (auto simp: submit_cases inv_fifo_def)

lemma ids_submit: "inv_ids s \<Longrightarrow> inv_ids (snd (submit f a s))"
  by (auto simp: submit_cases inv_ids_def)

lemma part_submit: "inv_part s \<Longrightarrow> inv_part (snd (submit f a s))"
  by (simp add: submit_cases inv_part_def)

lemma inv_heap_pointwise:
  assumes "inv_heap s"
    and e: "accepted s' = accepted s" "executed s' = executed s" "abandoned s' = abandoned s"
    and h: "\<forall>t\<in>set (accepted s). heap s' t = heap s t"
  shows "inv_heap s'"
  unfolding inv_heap_def e
proof
  fix t assume t: "t \<in> set (accepted s)"
  with assms(1) obtain p where "heap s t = Some p"
    "shared p = (if t \<in> set (executed s) then Ready (callable p ())
                 else if t \<in> set (abandoned s) then Ready (Failure Broken_promise)
                 else Pending)"
    unfolding inv_heap_def by blast
  with h t show "\<exists>p. heap s' t = Some p \<and>
    shared p = (if t \<in> set (executed s) then Ready (callable p ())
                else if t \<in> set (abandoned s) then Ready (Failure Broken_promise)
                else Pending)" by simp
qed

lemma inv_heap_extend:
  assumes "inv_heap s"
    and e: "accepted s' = accepted s @ [t0]" "executed s' = executed s"
      "abandoned s' = abandoned s"
    and h: "\<forall>t\<in>set (accepted s). heap s' t = heap s t"
    and n: "heap s' t0 = Some p0" "shared p0 = Pending"
      "t0 \<notin> set (executed s)" "t0 \<notin> set (abandoned s)"
  shows "inv_heap s'"
  unfolding inv_heap_def e
proof
  fix t assume "t \<in> set (accepted s @ [t0])"
  then consider "t \<in> set (accepted s)" | "t = t0" by auto
  then show "\<exists>p. heap s' t = Some p \<and>
    shared p = (if t \<in> set (executed s) then Ready (callable p ())
                else if t \<in> set (abandoned s) then Ready (Failure Broken_promise)
                else Pending)"
  proof cases
    case 1
    with assms(1) obtain p where "heap s t = Some p"
      "shared p = (if t \<in> set (executed s) then Ready (callable p ())
                   else if t \<in> set (abandoned s) then Ready (Failure Broken_promise)
                   else Pending)"
      unfolding inv_heap_def by blast
    with h 1 show ?thesis by simp
  next
    case 2
    with n show ?thesis by simp
  qed
qed

lemma heap_submit:
  assumes "inv_heap s" "inv_ids s" "inv_fifo s" "inv_part s"
  shows "inv_heap (snd (submit f a s))"
proof -
  from assms(2) have lt: "\<forall>t\<in>set (accepted s). t \<noteq> next_id s" by (auto simp: inv_ids_def)
  then have fresh: "next_id s \<notin> set (accepted s)" by auto
  with assms(3,4) have nex: "next_id s \<notin> set (executed s)"
    using executed_accepted[of s "next_id s"] by auto
  from assms(3) have "set (abandoned s) \<subseteq> set (accepted s)"
    by (auto simp: fifoD)
  with fresh have nab: "next_id s \<notin> set (abandoned s)" by auto
  show ?thesis
  proof (cases "stop s")
    case True
    show ?thesis
      by (rule inv_heap_pointwise[OF assms(1)]) (insert True lt, simp_all add: submit_cases)
  next
    case False
    show ?thesis
      by (rule inv_heap_extend[OF assms(1), where ?t0.0 = "next_id s"
            and ?p0.0 = "\<lparr>callable = (\<lambda>_. f a), shared = Pending\<rparr>"])
        (insert False lt nex nab, simp_all add: submit_cases)
  qed
qed

lemma ctl_submit: "inv_ctl n s \<Longrightarrow> inv_ctl n (snd (submit f a s))"
  unfolding inv_ctl_def submit_cases by (cases "stop s") auto

lemma inv_submit:
  assumes "pool_inv n s" "stop s \<or> dtor s \<noteq> Returned"
  shows "pool_inv n (snd (submit f a s))"
proof -
  from assms have "stop s \<or> abandoned s = []" by (auto simp: pool_inv_def inv_ctl_def)
  with assms(1) show ?thesis
    by (simp add: pool_inv_def fifo_submit ids_submit part_submit heap_submit ctl_submit)
qed

lemma in_set_upd: "x \<in> set (ws[i := w]) \<Longrightarrow> x = w \<or> x \<in> set ws"
  using set_update_subset_insert[of ws i w] by auto

lemma live_worker:
  assumes "inv_ctl n s" "i < length (workers s)" "workers s ! i \<noteq> Exited"
  shows "dtor s \<noteq> Returned" and "abandoned s = []"
proof -
  show d: "dtor s \<noteq> Returned"
  proof
    assume "dtor s = Returned"
    with assms(1) have "\<forall>w\<in>set (workers s). w = Exited" by (simp add: inv_ctl_def)
    with assms(2,3) show False using nth_mem by blast
  qed
  with assms(1) show "abandoned s = []" by (simp add: inv_ctl_def)
qed

lemma ctl_workers_upd:
  assumes "inv_ctl n s" "i < length (workers s)" "workers s ! i \<noteq> Exited"
    "w \<noteq> Crashed" "w = Exited \<longrightarrow> stop s \<and> tasks s = []" "w = Blocked \<longrightarrow> \<not> stop s"
  shows "inv_ctl n (s\<lparr>workers := (workers s)[i := w]\<rparr>)"
proof -
  let ?ws = "workers s"
  note d = live_worker(1)[OF assms(1,2,3)] and ab = live_worker(2)[OF assms(1,2,3)]
  have a: "Crashed \<notin> set (?ws[i := w])" using assms(1,4) by (auto simp: inv_ctl_def dest: in_set_upd)
  have b: "Exited \<in> set (?ws[i := w]) \<longrightarrow> stop s \<and> tasks s = [] \<and> abandoned s = []"
    using assms(1,5) ab by (auto simp: inv_ctl_def dest: in_set_upd)
  have c: "\<forall>k. dtor s = Joining k \<longrightarrow>
        k \<le> n \<and> (\<forall>j<k. ?ws[i := w] ! j = Exited) \<and> Blocked \<notin> set (?ws[i := w])"
  proof (intro allI impI)
    fix k assume k: "dtor s = Joining k"
    with assms(1) have k1: "k \<le> n" and k2: "\<forall>j<k. ?ws ! j = Exited" and k3: "Blocked \<notin> set ?ws"
      and st: "stop s" by (auto simp: inv_ctl_def)
    from k2 assms(3) have "\<forall>j<k. i \<noteq> j" by auto
    with k2 have "\<forall>j<k. ?ws[i := w] ! j = Exited" by simp
    moreover from k3 st assms(6) have "Blocked \<notin> set (?ws[i := w])" by (auto dest: in_set_upd)
    ultimately show "k \<le> n \<and> (\<forall>j<k. ?ws[i := w] ! j = Exited) \<and> Blocked \<notin> set (?ws[i := w])"
      using k1 by simp
  qed
  show ?thesis using assms(1) a b c d by (simp add: inv_ctl_def)
qed

lemma notify_one_cases:
  "notify_one w s = s\<lparr>owed := owed s - 1\<rparr> \<and> Blocked \<notin> set (workers s) \<or>
   (\<exists>i. i < length (workers s) \<and> workers s ! i = Blocked \<and>
        notify_one w s = s\<lparr>workers := (workers s)[i := Acquire], owed := owed s - 1\<rparr>)"
proof (cases "pick_waiter w (workers s)")
  case None
  then have "Blocked \<notin> set (workers s)" using pick_waiter_None by blast
  with None show ?thesis by (simp add: notify_one_def)
next
  case (Some i)
  then show ?thesis using pick_waiter_Some[OF Some] by (auto simp: notify_one_def)
qed

lemma inv_owed: assumes "pool_inv n s" shows "pool_inv n (s\<lparr>owed := k\<rparr>)"
proof -
  let ?s' = "s\<lparr>owed := k\<rparr>"
  have "inv_fifo ?s'" by (rule inv_fifo_frame[of s]) (insert assms, simp_all add: pool_inv_def)
  moreover have "inv_ids ?s'" by (rule inv_ids_frame[of s]) (insert assms, simp_all add: pool_inv_def)
  moreover have "inv_part ?s'" by (rule inv_part_frame[of s]) (insert assms, simp_all add: pool_inv_def)
  moreover have "inv_heap ?s'" by (rule inv_heap_frame[of s]) (insert assms, simp_all add: pool_inv_def)
  moreover have "inv_ctl n ?s'" by (rule inv_ctl_frame[of n s]) (insert assms, simp_all add: pool_inv_def)
  ultimately show ?thesis by (simp add: pool_inv_def)
qed

lemma inv_idle_upd:
  assumes "pool_inv n s" "i < length (workers s)" "running [workers s ! i] = []" "running [w] = []"
    "workers s ! i \<noteq> Exited"
    "w \<noteq> Crashed" "w = Exited \<longrightarrow> stop s \<and> tasks s = []" "w = Blocked \<longrightarrow> \<not> stop s"
  shows "pool_inv n (s\<lparr>workers := (workers s)[i := w]\<rparr>)"
proof -
  let ?s' = "s\<lparr>workers := (workers s)[i := w]\<rparr>"
  from assms(1) have c: "inv_ctl n s" by (simp add: pool_inv_def)
  have 1: "inv_ctl n ?s'"
    by (rule ctl_workers_upd[OF c assms(2) assms(5) assms(6) assms(7) assms(8)])
  have r: "mset (running ((workers s)[i := w])) = mset (running (workers s))"
    by (rule running_idle_idle[OF assms(2) assms(3) assms(4)])
  have 2: "inv_part ?s'"
    by (rule inv_part_frame[of s ?s']) (insert assms(1) r, simp_all add: pool_inv_def)
  have "inv_fifo ?s'" by (rule inv_fifo_frame[of s]) (insert assms(1), simp_all add: pool_inv_def)
  moreover have "inv_ids ?s'" by (rule inv_ids_frame[of s]) (insert assms(1), simp_all add: pool_inv_def)
  moreover have "inv_heap ?s'" by (rule inv_heap_frame[of s]) (insert assms(1), simp_all add: pool_inv_def)
  ultimately show ?thesis using 1 2 by (simp add: pool_inv_def)
qed

lemma inv_unblock:
  assumes "pool_inv n s" "i < length (workers s)" "workers s ! i = Blocked"
  shows "pool_inv n (s\<lparr>workers := (workers s)[i := Acquire]\<rparr>)"
  by (rule inv_idle_upd[OF assms(1,2)]) (insert assms(3), simp_all)

lemma inv_notify_one: assumes "pool_inv n s" shows "pool_inv n (notify_one w s)"
proof -
  from notify_one_cases[of w s] show ?thesis
  proof (elim disjE conjE exE)
    assume "notify_one w s = s\<lparr>owed := owed s - 1\<rparr>"
    with assms show ?thesis by (simp add: inv_owed)
  next
    fix i assume i: "i < length (workers s)" "workers s ! i = Blocked"
      and eq: "notify_one w s = s\<lparr>workers := (workers s)[i := Acquire], owed := owed s - 1\<rparr>"
    from inv_owed[OF inv_unblock[OF assms i], of "owed s - 1"] eq show ?thesis by simp
  qed
qed

lemma inv_worker_lock:
  assumes "pool_inv n s" "i < length (workers s)" "workers s ! i = Acquire"
  shows "pool_inv n (worker_lock i s)"
proof -
  consider (block) "\<not> (stop s \<or> tasks s \<noteq> [])" | (exit) "stop s \<and> tasks s = []"
    | (claim) "tasks s \<noteq> []" by auto
  then show ?thesis
  proof cases
    case block
    then have eq: "worker_lock i s = s\<lparr>workers := (workers s)[i := Blocked]\<rparr>"
      by (simp add: worker_lock_def)
    show ?thesis unfolding eq
      by (rule inv_idle_upd[OF assms(1,2)]) (insert assms(3) block, simp_all)
  next
    case exit
    then have eq: "worker_lock i s = s\<lparr>workers := (workers s)[i := Exited]\<rparr>"
      by (simp add: worker_lock_def)
    show ?thesis unfolding eq
      by (rule inv_idle_upd[OF assms(1,2)]) (insert assms(3) exit, simp_all)
  next
    case claim
    then obtain t ts where ts: "tasks s = t # ts" by (cases "tasks s") auto
    let ?s1 = "s\<lparr>workers := (workers s)[i := Running t]\<rparr>"
    have eq: "worker_lock i s = ?s1\<lparr>tasks := ts, claimed := claimed s @ [(i, t)]\<rparr>"
      using ts by (simp add: worker_lock_def)
    from assms(1) have c: "inv_ctl n s" by (simp add: pool_inv_def)
    have c1: "inv_ctl n ?s1"
      by (rule ctl_workers_upd[OF c assms(2)]) (insert assms(3), simp_all)
    from c have noex: "Exited \<notin> set (workers s)" using ts by (auto simp: inv_ctl_def)
    then have noex': "Exited \<notin> set ((workers s)[i := Running t])" by (auto dest: in_set_upd)
    from c assms(2) have "i < n" by (simp add: inv_ctl_def)
    with c1 noex' have 1: "inv_ctl n (worker_lock i s)" unfolding eq
      by (simp add: inv_ctl_def)
    have "mset (running ((workers s)[i := Running t])) = add_mset t (mset (running (workers s)))"
      by (rule running_from_idle[OF assms(2)]) (insert assms(3), simp)
    with assms(1) have 2: "inv_part (worker_lock i s)" unfolding eq
      by (simp add: pool_inv_def inv_part_def)
    from live_worker(2)[OF c assms(2)] assms(3) have "abandoned s = []" by simp
    with assms(1) have 3: "inv_fifo (worker_lock i s)" unfolding eq using ts
      by (simp add: pool_inv_def inv_fifo_def)
    have 4: "inv_ids (worker_lock i s)" unfolding eq
      by (rule inv_ids_frame[of s]) (insert assms(1), simp_all add: pool_inv_def)
    have 5: "inv_heap (worker_lock i s)" unfolding eq
      by (rule inv_heap_frame[of s]) (insert assms(1), simp_all add: pool_inv_def)
    from 1 2 3 4 5 show ?thesis by (simp add: pool_inv_def)
  qed
qed

lemma running_nth: "i < length ws \<Longrightarrow> ws ! i = Running t \<Longrightarrow> t \<in> set (running ws)"
  using nth_mem[of i ws] by (simp add: running_mem)

lemma claimed_distinct:
  assumes "inv_fifo s" "inv_ids s"
  shows "distinct (map snd (claimed s))"
proof -
  from assms(2) have "distinct (accepted s)" by (simp add: inv_ids_def)
  then have "distinct (map snd (claimed s) @ tasks s @ abandoned s)"
    unfolding fifoD[OF assms(1)] .
  then show ?thesis by simp
qed

lemma running_pending:
  assumes "pool_inv n s" "i < length (workers s)" "workers s ! i = Running t"
  shows "t \<in> set (accepted s)" and "t \<notin> set (executed s)" and "t \<notin> set (abandoned s)"
proof -
  from assms(1) have "inv_ctl n s" by (simp add: pool_inv_def)
  from live_worker(2)[OF this assms(2)] assms(3) show "t \<notin> set (abandoned s)" by simp
  from assms(1) have f: "inv_fifo s" and d: "inv_ids s" and p: "inv_part s"
    by (simp_all add: pool_inv_def)
  from running_nth[OF assms(2,3)] have r: "t \<in># mset (running (workers s))" by simp
  with p have c: "t \<in> set (map snd (claimed s))"
    unfolding inv_part_def by (metis set_mset_mset union_iff)
  then show "t \<in> set (accepted s)" by (simp add: fifoD[OF f])
  from claimed_distinct[OF f d] c have "count (mset (map snd (claimed s))) t = 1"
    by (simp add: distinct_count_atmost_1)
  with p have "count (mset (executed s)) t + count (mset (running (workers s))) t = 1"
    by (simp add: inv_part_def)
  moreover from r have "count (mset (running (workers s))) t \<ge> 1" by (simp add: Suc_le_eq)
  ultimately have "count (mset (executed s)) t = 0" by linarith
  then show "t \<notin> set (executed s)" by (simp add: count_eq_zero_iff)
qed

lemma worker_run_ok:
  assumes "pool_inv n s" "i < length (workers s)" "workers s ! i = Running t"
  shows "\<exists>p. heap s t = Some p \<and> shared p = Pending \<and>
     worker_run i t s = s\<lparr>workers := (workers s)[i := Acquire],
        heap := (heap s)(t \<mapsto> p\<lparr>shared := Ready (callable p ())\<rparr>),
        executed := executed s @ [t]\<rparr>"
proof -
  from assms(1) have "inv_heap s" by (simp add: pool_inv_def)
  with running_pending(1)[OF assms] obtain p where "heap s t = Some p"
    "shared p = (if t \<in> set (executed s) then Ready (callable p ())
                 else if t \<in> set (abandoned s) then Ready (Failure Broken_promise)
                 else Pending)"
    unfolding inv_heap_def by blast
  with running_pending(2,3)[OF assms] have p: "heap s t = Some p" "shared p = Pending"
    by simp_all
  then show ?thesis by (simp add: worker_run_def invoke_def)
qed

lemma inv_worker_run:
  assumes "pool_inv n s" "i < length (workers s)" "workers s ! i = Running t"
  shows "pool_inv n (worker_run i t s)"
proof -
  from worker_run_ok[OF assms] obtain p where p: "heap s t = Some p" "shared p = Pending"
    and eq: "worker_run i t s = s\<lparr>workers := (workers s)[i := Acquire],
        heap := (heap s)(t \<mapsto> p\<lparr>shared := Ready (callable p ())\<rparr>),
        executed := executed s @ [t]\<rparr>" by blast
  from assms(1) have c: "inv_ctl n s" by (simp add: pool_inv_def)
  have c1: "inv_ctl n (s\<lparr>workers := (workers s)[i := Acquire]\<rparr>)"
    by (rule ctl_workers_upd[OF c assms(2)]) (insert assms(3), simp_all)
  have 1: "inv_ctl n (worker_run i t s)" unfolding eq
    by (rule inv_ctl_frame[OF c1]) simp_all
  have "mset (running (workers s)) = add_mset t (mset (running ((workers s)[i := Acquire])))"
    by (rule running_to_idle[OF assms(2,3)]) simp
  with assms(1) have 2: "inv_part (worker_run i t s)" unfolding eq
    by (simp add: pool_inv_def inv_part_def)
  have 3: "inv_fifo (worker_run i t s)" unfolding eq
    by (rule inv_fifo_frame[of s]) (insert assms(1), simp_all add: pool_inv_def)
  have 4: "inv_ids (worker_run i t s)" unfolding eq
    by (rule inv_ids_frame[of s]) (insert assms(1), simp_all add: pool_inv_def)
  from assms(1) have h: "inv_heap s" by (simp add: pool_inv_def)
  let ?s' = "s\<lparr>workers := (workers s)[i := Acquire],
        heap := (heap s)(t \<mapsto> p\<lparr>shared := Ready (callable p ())\<rparr>),
        executed := executed s @ [t]\<rparr>"
  have 5: "inv_heap (worker_run i t s)" unfolding eq inv_heap_def
  proof
    fix u assume "u \<in> set (accepted ?s')"
    then have u: "u \<in> set (accepted s)" by simp
    with h obtain q where q: "heap s u = Some q"
      "shared q = (if u \<in> set (executed s) then Ready (callable q ())
                   else if u \<in> set (abandoned s) then Ready (Failure Broken_promise)
                   else Pending)"
      unfolding inv_heap_def by blast
    show "\<exists>pa. heap ?s' u = Some pa \<and>
        shared pa = (if u \<in> set (executed ?s') then Ready (callable pa ())
                     else if u \<in> set (abandoned ?s') then Ready (Failure Broken_promise)
                     else Pending)"
      using q by (cases "u = t") simp_all
  qed
  from 1 2 3 4 5 show ?thesis by (simp add: pool_inv_def)
qed

lemma inv_dtor_stop:
  assumes "pool_inv n s" "dtor s = Alive"
  shows "pool_inv n (dtor_stop s)"
proof -
  from assms have "inv_ctl n (dtor_stop s)"
    by (auto simp: pool_inv_def inv_ctl_def dtor_stop_def)
  moreover have "inv_fifo (dtor_stop s)"
    by (rule inv_fifo_frame[of s]) (insert assms(1), simp_all add: pool_inv_def dtor_stop_def)
  moreover have "inv_ids (dtor_stop s)"
    by (rule inv_ids_frame[of s]) (insert assms(1), simp_all add: pool_inv_def dtor_stop_def)
  moreover have "inv_part (dtor_stop s)"
    by (rule inv_part_frame[of s]) (insert assms(1), simp_all add: pool_inv_def dtor_stop_def)
  moreover have "inv_heap (dtor_stop s)"
    by (rule inv_heap_frame[of s]) (insert assms(1), simp_all add: pool_inv_def dtor_stop_def)
  ultimately show ?thesis by (simp add: pool_inv_def)
qed

lemma set_wake:
  "Blocked \<notin> wake ` A"
  "Exited \<in> wake ` A \<longleftrightarrow> Exited \<in> A"
  "Crashed \<in> wake ` A \<longleftrightarrow> Crashed \<in> A"
  by (auto simp: wake_def image_iff)

lemma inv_notify_all:
  assumes "pool_inv n s" "dtor s = Stopped"
  shows "pool_inv n (notify_all s)"
proof -
  from assms have "inv_ctl n (notify_all s)"
    by (auto simp: pool_inv_def inv_ctl_def notify_all_def set_wake)
  moreover have "inv_fifo (notify_all s)"
    by (rule inv_fifo_frame[of s]) (insert assms(1), simp_all add: pool_inv_def notify_all_def)
  moreover have "inv_ids (notify_all s)"
    by (rule inv_ids_frame[of s]) (insert assms(1), simp_all add: pool_inv_def notify_all_def)
  moreover have "inv_part (notify_all s)"
    by (rule inv_part_frame[of s])
      (insert assms(1), simp_all add: pool_inv_def notify_all_def running_wake)
  moreover have "inv_heap (notify_all s)"
    by (rule inv_heap_frame[of s]) (insert assms(1), simp_all add: pool_inv_def notify_all_def)
  ultimately show ?thesis by (simp add: pool_inv_def)
qed

lemma inv_dtor: assumes "pool_inv n s" "inv_ctl n (s\<lparr>dtor := d\<rparr>)"
  shows "pool_inv n (s\<lparr>dtor := d\<rparr>)"
proof -
  have "inv_fifo (s\<lparr>dtor := d\<rparr>)"
    by (rule inv_fifo_frame[of s]) (insert assms(1), simp_all add: pool_inv_def)
  moreover have "inv_ids (s\<lparr>dtor := d\<rparr>)"
    by (rule inv_ids_frame[of s]) (insert assms(1), simp_all add: pool_inv_def)
  moreover have "inv_part (s\<lparr>dtor := d\<rparr>)"
    by (rule inv_part_frame[of s]) (insert assms(1), simp_all add: pool_inv_def)
  moreover have "inv_heap (s\<lparr>dtor := d\<rparr>)"
    by (rule inv_heap_frame[of s]) (insert assms(1), simp_all add: pool_inv_def)
  ultimately show ?thesis using assms(2) by (simp add: pool_inv_def)
qed

lemma executed_not_queued:
  assumes "pool_inv n s" "t \<in> set (executed s)"
  shows "t \<notin> set (tasks s)"
proof -
  from assms(1) have f: "inv_fifo s" and d: "inv_ids s" and p: "inv_part s"
    by (simp_all add: pool_inv_def)
  from assms(2) have "t \<in># mset (executed s) + mset (running (workers s))" by simp
  with p have c: "t \<in> set (map snd (claimed s))"
    unfolding inv_part_def by (metis set_mset_mset)
  from d have "distinct (map snd (claimed s) @ tasks s @ abandoned s)"
    unfolding inv_ids_def fifoD[OF f] by simp
  with c show ?thesis by auto
qed

lemma inv_destroy_members:
  assumes "pool_inv n s" "dtor s = Joining k" "\<forall>w\<in>set (workers s). w = Exited"
  shows "pool_inv n ((destroy_members s)\<lparr>dtor := Returned\<rparr>)"
proof -
  let ?s' = "(destroy_members s)\<lparr>dtor := Returned\<rparr>"
  from assms(1) have f: "inv_fifo s" and c: "inv_ctl n s" and h: "inv_heap s"
    by (simp_all add: pool_inv_def)
  from c assms(2) have ab: "abandoned s = []" by (simp add: inv_ctl_def)
  from f ab have 1: "inv_fifo ?s'" by (simp add: inv_fifo_def)
  have 2: "inv_ids ?s'"
    by (rule inv_ids_frame[of s]) (insert assms(1), simp_all add: pool_inv_def)
  have 3: "inv_part ?s'"
    by (rule inv_part_frame[of s]) (insert assms(1), simp_all add: pool_inv_def)
  have 4: "inv_heap ?s'" unfolding inv_heap_def
  proof
    fix t assume "t \<in> set (accepted ?s')"
    then have t: "t \<in> set (accepted s)" by simp
    with h ab obtain q where q: "heap s t = Some q"
      "shared q = (if t \<in> set (executed s) then Ready (callable q ()) else Pending)"
      unfolding inv_heap_def by fastforce
    show "\<exists>p. heap ?s' t = Some p \<and>
        shared p = (if t \<in> set (executed ?s') then Ready (callable p ())
                    else if t \<in> set (abandoned ?s') then Ready (Failure Broken_promise)
                    else Pending)"
    proof (cases "t \<in> set (tasks s)")
      case True
      with executed_not_queued[OF assms(1)] have "t \<notin> set (executed s)" by blast
      with q True ab show ?thesis by (simp add: heap_destroy_members)
    next
      case False
      with q ab show ?thesis by (simp add: heap_destroy_members)
    qed
  qed
  from c assms(2,3) have 5: "inv_ctl n ?s'" by (auto simp: inv_ctl_def)
  from 1 2 3 4 5 show ?thesis by (simp add: pool_inv_def)
qed

lemma inv_dtor_join:
  assumes "pool_inv n s" "dtor_join s = Some s'"
  shows "pool_inv n s'"
proof -
  from assms(2) obtain k where k: "dtor s = Joining k"
    by (auto simp: dtor_join_def split: dstate.splits)
  from assms(1) have c: "inv_ctl n s" by (simp add: pool_inv_def)
  with k have kn: "k \<le> n" and ex: "\<forall>j<k. workers s ! j = Exited"
    and nb: "Blocked \<notin> set (workers s)" and len: "length (workers s) = n"
    by (simp_all add: inv_ctl_def)
  show ?thesis
  proof (cases "k < length (workers s)")
    case True
    with assms(2) k have e: "workers s ! k = Exited" and eq: "s' = s\<lparr>dtor := Joining (Suc k)\<rparr>"
      by (auto simp: dtor_join_def split: if_splits)
    from ex e have "\<forall>j<Suc k. workers s ! j = Exited" by (auto simp: less_Suc_eq)
    with c k True len nb have "inv_ctl n (s\<lparr>dtor := Joining (Suc k)\<rparr>)"
      by (auto simp: inv_ctl_def)
    from inv_dtor[OF assms(1) this] eq show ?thesis by simp
  next
    case False
    with assms(2) k have eq: "s' = (destroy_members s)\<lparr>dtor := Returned\<rparr>"
      by (auto simp: dtor_join_def)
    from False kn len have "k = length (workers s)" by simp
    with ex have "\<forall>w\<in>set (workers s). w = Exited" by (auto simp: in_set_conv_nth)
    from inv_destroy_members[OF assms(1) k this] eq show ?thesis by simp
  qed
qed

lemma inv_step:
  assumes "pool_inv n s" "step e s = Some s'"
  shows "pool_inv n s'"
proof (cases e)
  case (Submit f a)
  with assms show ?thesis by (auto simp: inv_submit split: if_splits)
next
  case (Notify w)
  with assms show ?thesis by (auto simp: inv_notify_one split: if_splits)
next
  case (Spurious i)
  with assms show ?thesis by (auto simp: inv_unblock split: if_splits)
next
  case (Lock i)
  with assms show ?thesis by (auto simp: inv_worker_lock split: if_splits)
next
  case (Run i)
  with assms show ?thesis by (auto simp: inv_worker_run split: if_splits wstate.splits)
next
  case Dtor_stop
  with assms show ?thesis by (auto simp: inv_dtor_stop split: if_splits)
next
  case Dtor_notify
  with assms show ?thesis by (auto simp: inv_notify_all split: if_splits)
next
  case Dtor_join
  with assms show ?thesis by (auto simp: inv_dtor_join)
qed

lemma inv_exec: "pool_inv n s \<Longrightarrow> exec es s = Some s' \<Longrightarrow> pool_inv n s'"
proof (induction es arbitrary: s)
  case Nil
  then show ?case by simp
next
  case (Cons e es)
  then show ?case by (auto split: option.splits dest: inv_step)
qed

lemma inv_reach: "exec es (ThreadPool n) = Some s \<Longrightarrow> pool_inv n s"
  using inv_exec[OF inv_init] .

section \<open>No lost wake-up\<close>

lemma awake_update:
  "i < length ws \<Longrightarrow> awake (ws[i := w]) + awake [ws ! i] = awake ws + awake [w]"
proof (induction ws arbitrary: i)
  case Nil
  then show ?case by simp
next
  case (Cons x xs)
  show ?case
  proof (cases i)
    case 0
    then show ?thesis by (cases x; cases w) simp_all
  next
    case (Suc j)
    with Cons.prems have "j < length xs" by simp
    from Cons.IH[OF this] Suc show ?thesis by (cases x) simp_all
  qed
qed

lemma wake_step:
  assumes "pool_inv n s" "inv_wake s" "step e s = Some s'"
  shows "inv_wake s'"
proof (cases e)
  case (Submit f a)
  with assms(2,3) show ?thesis by (auto simp: inv_wake_def submit_cases split: if_splits)
next
  case (Notify w)
  with assms(3) have eq: "s' = notify_one w s" and o: "0 < owed s" by (auto split: if_splits)
  from notify_one_cases[of w s] show ?thesis
  proof (elim disjE conjE exE)
    assume "notify_one w s = s\<lparr>owed := owed s - 1\<rparr>" "Blocked \<notin> set (workers s)"
    with eq show ?thesis by (simp add: inv_wake_def)
  next
    fix j assume j: "j < length (workers s)" "workers s ! j = Blocked"
      and "notify_one w s = s\<lparr>workers := (workers s)[j := Acquire], owed := owed s - 1\<rparr>"
    with eq have s': "s' = s\<lparr>workers := (workers s)[j := Acquire], owed := owed s - 1\<rparr>" by simp
    from j have b: "Blocked \<in> set (workers s)" using nth_mem by fastforce
    from awake_update[OF j(1), of Acquire] j(2)
    have "awake ((workers s)[j := Acquire]) = Suc (awake (workers s))" by simp
    with assms(2) b o show ?thesis unfolding s' by (simp add: inv_wake_def)
  qed
next
  case (Spurious j)
  with assms(3) have j: "j < length (workers s)" "workers s ! j = Blocked"
    and s': "s' = s\<lparr>workers := (workers s)[j := Acquire]\<rparr>" by (auto split: if_splits)
  from j have b: "Blocked \<in> set (workers s)" using nth_mem by fastforce
  from awake_update[OF j(1), of Acquire] j(2)
  have "awake ((workers s)[j := Acquire]) = Suc (awake (workers s))" by simp
  with assms(2) b show ?thesis unfolding s' by (simp add: inv_wake_def)
next
  case (Lock j)
  with assms(3) have j: "j < length (workers s)" "workers s ! j = Acquire"
    and s': "s' = worker_lock j s" by (auto split: if_splits)
  show ?thesis
  proof (cases "tasks s = []")
    case True
    then show ?thesis unfolding s' by (simp add: inv_wake_def worker_lock_def)
  next
    case False
    from awake_update[OF j(1), of "Running (hd (tasks s))"] j(2)
    have a: "awake ((workers s)[j := Running (hd (tasks s))]) = awake (workers s)" by simp
    from j(2) have "\<And>x. Blocked \<in> set ((workers s)[j := Running x]) \<Longrightarrow> Blocked \<in> set (workers s)"
      by (auto dest: in_set_upd)
    with assms(2) False a show ?thesis unfolding s'
      by (auto simp: inv_wake_def worker_lock_def)
  qed
next
  case (Run j)
  with assms(3) obtain t where j: "j < length (workers s)" "workers s ! j = Running t"
    and s': "s' = worker_run j t s" by (auto split: if_splits wstate.splits)
  from worker_run_ok[OF assms(1) j] s'
  have w: "workers s' = (workers s)[j := Acquire]" and t: "tasks s' = tasks s"
    and o: "owed s' = owed s" by auto
  from awake_update[OF j(1), of Acquire] j(2)
  have a: "awake ((workers s)[j := Acquire]) = awake (workers s)" by simp
  have "Blocked \<in> set ((workers s)[j := Acquire]) \<Longrightarrow> Blocked \<in> set (workers s)"
    by (auto dest: in_set_upd)
  with assms(2) a show ?thesis unfolding inv_wake_def w t o by auto
next
  case Dtor_stop
  with assms(2,3) show ?thesis by (auto simp: inv_wake_def dtor_stop_def split: if_splits)
next
  case Dtor_notify
  with assms(3) show ?thesis by (auto simp: inv_wake_def notify_all_def set_wake split: if_splits)
next
  case Dtor_join
  with assms(2,3) show ?thesis
    by (auto simp: inv_wake_def dtor_join_def split: if_splits dstate.splits)
qed

lemma wake_exec:
  "pool_inv n s \<Longrightarrow> inv_wake s \<Longrightarrow> exec es s = Some s' \<Longrightarrow> inv_wake s'"
proof (induction es arbitrary: s)
  case Nil
  then show ?case by simp
next
  case (Cons e es)
  from Cons.prems(3) obtain s1 where s1: "step e s = Some s1" and r: "exec es s1 = Some s'"
    by (auto split: option.splits)
  from Cons.IH[OF inv_step[OF Cons.prems(1) s1] wake_step[OF Cons.prems(1,2) s1] r]
  show ?case .
qed

lemma wake_reach: "exec es (ThreadPool n) = Some s \<Longrightarrow> inv_wake s"
proof -
  have "inv_wake (ThreadPool n)" by (simp add: inv_wake_def ThreadPool_def)
  from wake_exec[OF inv_init this] show "exec es (ThreadPool n) = Some s \<Longrightarrow> inv_wake s" .
qed

section \<open>Every run can be completed\<close>

lemma exec_append:
  "exec (es1 @ es2) s = (case exec es1 s of None \<Rightarrow> None | Some s1 \<Rightarrow> exec es2 s1)"
  by (induction es1 arbitrary: s) (auto split: option.splits)

lemma weight_update:
  "i < length ws \<Longrightarrow> weight (ws[i := w]) + weight [ws ! i] = weight ws + weight [w]"
proof (induction ws arbitrary: i)
  case Nil
  then show ?case by simp
next
  case (Cons x xs)
  show ?case
  proof (cases i)
    case 0
    then show ?thesis by (cases x; cases w) simp_all
  next
    case (Suc j)
    with Cons.prems have "j < length xs" by simp
    from Cons.IH[OF this] Suc show ?thesis by (cases x) simp_all
  qed
qed

lemma not_all_exited:
  assumes "\<not> (\<forall>w\<in>set ws. w = Exited)"
  shows "\<exists>i<length ws. ws ! i \<noteq> Exited"
  using assms by (auto simp: in_set_conv_nth)

lemma drain:
  fixes s :: "'v pool"
  assumes "pool_inv n s" "dtor s = Joining k"
  shows "\<exists>(es :: ('a, 'v) event list) s'. exec es s = Some s' \<and> pool_inv n s' \<and>
           dtor s' = Joining k \<and> (\<forall>w\<in>set (workers s'). w = Exited)"
  using assms
proof (induction "3 * length (tasks s) + weight (workers s)" arbitrary: s rule: less_induct)
  case less
  show ?case
  proof (cases "\<forall>w\<in>set (workers s). w = Exited")
    case True
    have "exec ([] :: ('a, 'v) event list) s = Some s" by simp
    with True less.prems show ?thesis by blast
  next
    case False
    from not_all_exited[OF False] obtain i where i: "i < length (workers s)"
      and ne: "workers s ! i \<noteq> Exited" by blast
    from less.prems have c: "inv_ctl n s" by (simp add: pool_inv_def)
    with less.prems(2) have st: "stop s" and nb: "Blocked \<notin> set (workers s)"
      and nc: "Crashed \<notin> set (workers s)" by (auto simp: inv_ctl_def)
    from i have mem: "workers s ! i \<in> set (workers s)" by simp
    have "\<exists>(e :: ('a, 'v) event) s1. step e s = Some s1 \<and> dtor s1 = Joining k \<and>
            3 * length (tasks s1) + weight (workers s1) < 3 * length (tasks s) + weight (workers s)"
    proof (cases "workers s ! i")
      case Acquire
      let ?s1 = "worker_lock i s"
      from i Acquire have 1: "step (Lock i :: ('a, 'v) event) s = Some ?s1" by simp
      have 2: "dtor ?s1 = Joining k" using less.prems(2) by (simp add: worker_lock_def)
      have 3: "3 * length (tasks ?s1) + weight (workers ?s1)
                 < 3 * length (tasks s) + weight (workers s)"
      proof (cases "tasks s = []")
        case True
        with st have "workers ?s1 = (workers s)[i := Exited]" "tasks ?s1 = tasks s"
          by (simp_all add: worker_lock_def)
        with weight_update[OF i, of Exited] Acquire show ?thesis by simp
      next
        case False
        then have "workers ?s1 = (workers s)[i := Running (hd (tasks s))]"
          "tasks ?s1 = tl (tasks s)"
          by (simp_all add: worker_lock_def)
        with weight_update[OF i, of "Running (hd (tasks s))"] Acquire False
        show ?thesis by (cases "tasks s") simp_all
      qed
      from 1 2 3 show ?thesis by blast
    next
      case Blocked
      with nb mem show ?thesis by simp
    next
      case (Running t)
      let ?s1 = "worker_run i t s"
      from i Running have 1: "step (Run i :: ('a, 'v) event) s = Some ?s1" by simp
      from worker_run_ok[OF less.prems(1) i Running]
      have w: "workers ?s1 = (workers s)[i := Acquire]" and t: "tasks ?s1 = tasks s"
        and d: "dtor ?s1 = dtor s" by auto
      from weight_update[OF i, of Acquire] Running w t
      have 3: "3 * length (tasks ?s1) + weight (workers ?s1)
                 < 3 * length (tasks s) + weight (workers s)" by simp
      from d less.prems(2) have 2: "dtor ?s1 = Joining k" by simp
      from 1 2 3 show ?thesis by blast
    next
      case Exited
      with ne show ?thesis by simp
    next
      case Crashed
      with nc mem show ?thesis by simp
    qed
    then obtain e :: "('a, 'v) event" and s1 where e: "step e s = Some s1"
      and d1: "dtor s1 = Joining k"
      and m: "3 * length (tasks s1) + weight (workers s1)
                < 3 * length (tasks s) + weight (workers s)" by blast
    from inv_step[OF less.prems(1) e] have i1: "pool_inv n s1" .
    from less.hyps[OF m i1 d1] obtain es :: "('a, 'v) event list" and s'
      where r: "exec es s1 = Some s'" "pool_inv n s'" "dtor s' = Joining k"
        "\<forall>w\<in>set (workers s'). w = Exited" by blast
    from e r(1) have "exec (e # es) s = Some s'" by simp
    with r(2,3,4) show ?thesis by blast
  qed
qed

lemma join_all:
  fixes s :: "'v pool"
  assumes "dtor s = Joining k" "\<forall>w\<in>set (workers s). w = Exited"
  shows "\<exists>(es :: ('a, 'v) event list) s'. exec es s = Some s' \<and> dtor s' = Returned"
  using assms
proof (induction "length (workers s) - k" arbitrary: s k)
  case 0
  then have "\<not> k < length (workers s)" by simp
  with "0.prems"(1)
  have "exec ([Dtor_join] :: ('a, 'v) event list) s =
          Some ((destroy_members s)\<lparr>dtor := Returned\<rparr>) \<and>
        dtor ((destroy_members s)\<lparr>dtor := Returned\<rparr>) = Returned"
    by (simp add: dtor_join_def)
  then show ?case by blast
next
  case (Suc m)
  then have k: "k < length (workers s)" by simp
  with Suc.prems(2) have "workers s ! k = Exited" by simp
  with k Suc.prems(1) have st: "step (Dtor_join :: ('a, 'v) event) s = Some (s\<lparr>dtor := Joining (Suc k)\<rparr>)"
    by (simp add: dtor_join_def)
  from Suc.hyps(2) have "m = length (workers (s\<lparr>dtor := Joining (Suc k)\<rparr>)) - Suc k" by simp
  from Suc.hyps(1)[OF this] Suc.prems(2)
  obtain es :: "('a, 'v) event list" and s'
    where "exec es (s\<lparr>dtor := Joining (Suc k)\<rparr>) = Some s'" "dtor s' = Returned" by auto
  with st have "exec (Dtor_join # es) s = Some s' \<and> dtor s' = Returned" by simp
  then show ?case by blast
qed

lemma can_finish_joining:
  fixes s :: "'v pool"
  assumes "pool_inv n s" "dtor s = Joining k"
  shows "\<exists>(es :: ('a, 'v) event list) s'. exec es s = Some s' \<and> dtor s' = Returned"
proof -
  from drain[OF assms, where ?'a = 'a] obtain es1 :: "('a, 'v) event list" and s1
    where 1: "exec es1 s = Some s1" "dtor s1 = Joining k" "\<forall>w\<in>set (workers s1). w = Exited"
    by blast
  from join_all[OF 1(2,3), where ?'a = 'a] obtain es2 :: "('a, 'v) event list" and s2
    where 2: "exec es2 s1 = Some s2" "dtor s2 = Returned" by blast
  from 1(1) 2(1) have "exec (es1 @ es2) s = Some s2" by (simp add: exec_append)
  with 2(2) show ?thesis by blast
qed

lemma can_finish:
  fixes s :: "'v pool"
  assumes "pool_inv n s"
  shows "\<exists>(es :: ('a, 'v) event list) s'. exec es s = Some s' \<and> dtor s' = Returned"
proof (cases "dtor s")
  case Alive
  then have 1: "step (Dtor_stop :: ('a, 'v) event) s = Some (dtor_stop s)" by simp
  have 2: "step (Dtor_notify :: ('a, 'v) event) (dtor_stop s) = Some (notify_all (dtor_stop s))"
    by (simp add: dtor_stop_def)
  from inv_step[OF inv_step[OF assms 1] 2] have i: "pool_inv n (notify_all (dtor_stop s))" .
  have "dtor (notify_all (dtor_stop s)) = Joining 0" by (simp add: notify_all_def)
  from can_finish_joining[OF i this, where ?'a = 'a] obtain es :: "('a, 'v) event list" and s'
    where r: "exec es (notify_all (dtor_stop s)) = Some s'" "dtor s' = Returned" by blast
  from 1 2 r(1) have "exec (Dtor_stop # Dtor_notify # es) s = Some s'" by simp
  with r(2) show ?thesis by blast
next
  case Stopped
  then have 2: "step (Dtor_notify :: ('a, 'v) event) s = Some (notify_all s)" by simp
  from inv_step[OF assms 2] have i: "pool_inv n (notify_all s)" .
  have "dtor (notify_all s) = Joining 0" by (simp add: notify_all_def)
  from can_finish_joining[OF i this, where ?'a = 'a] obtain es :: "('a, 'v) event list" and s'
    where r: "exec es (notify_all s) = Some s'" "dtor s' = Returned" by blast
  from 2 r(1) have "exec (Dtor_notify # es) s = Some s'" by simp
  with r(2) show ?thesis by blast
next
  case (Joining k)
  from can_finish_joining[OF assms this, where ?'a = 'a] show ?thesis .
next
  case Returned
  have "exec ([] :: ('a, 'v) event list) s = Some s" by simp
  with Returned show ?thesis by blast
qed

section \<open>Evaluating runs\<close>

lemmas run_defs = submit_def make_task_def publish_def notify_one_def pick_waiter_def
  worker_lock_def worker_run_def invoke_def dtor_stop_def notify_all_def dtor_join_def
  destroy_members_def abandon_def ThreadPool_def wake_def enqueue_def

section \<open>The order of dequeuing\<close>

lemma split_claimed:
  assumes "cs @ ts = xs @ A # ys @ B # zs" "distinct (cs @ ts)" "B \<in> set cs"
  shows "\<exists>ws. cs = xs @ A # ys @ B # ws"
proof -
  from assms(3) obtain c1 c2 where c: "cs = c1 @ B # c2" by (meson split_list)
  with assms(1) have e: "c1 @ B # (c2 @ ts) = (xs @ A # ys) @ B # zs" by simp
  from assms(2) c have n1: "B \<notin> set (c2 @ ts)" by auto
  from assms(2) c have n2: "B \<notin> set c1" by auto
  have "c1 @ B # (c2 @ ts) = (xs @ A # ys) @ B # zs \<longleftrightarrow> c1 = xs @ A # ys \<and> c2 @ ts = zs"
    by (rule append_Cons_eq_iff[OF n2 n1])
  with e have "c1 = xs @ A # ys" by blast
  with c show ?thesis by simp
qed

text \<open>
  C4. The queue is first in, first out. In every state of every run the tasks pushed so
  far are the tasks dequeued so far, in the order of dequeuing, followed by the queue (or,
  once the pool is destroyed, by what was left in the queue); so when \<open>A\<close> was pushed
  before \<open>B\<close> and \<open>B\<close> has been dequeued, \<open>A\<close> was dequeued before it. A successful
  \<open>enqueue\<close> puts the new task at the back of the queue, and a worker that finds the
  queue non-empty takes its front element.
\<close>

theorem fifo_dequeue_order:
  assumes "exec es (ThreadPool n) = Some s"
    and "accepted s = xs @ A # ys @ B # zs"
    and "B \<in> snd ` set (claimed s)"
  shows "accepted s = map snd (claimed s) @ tasks s @ abandoned s \<and>
         (dtor s \<noteq> Returned \<longrightarrow> abandoned s = []) \<and>
         (\<exists>ws. map snd (claimed s) = xs @ A # ys @ B # ws) \<and>
         (\<not> stop s \<longrightarrow> tasks (snd (enqueue f a w s)) = tasks s @ [next_id s]) \<and>
         (tasks s \<noteq> [] \<longrightarrow>
            workers (worker_lock i s) = (workers s)[i := Running (hd (tasks s))] \<and>
            tasks (worker_lock i s) = tl (tasks s))"
proof -
  from inv_reach[OF assms(1)] have f: "inv_fifo s" and d: "inv_ids s" and c: "inv_ctl n s"
    by (simp_all add: pool_inv_def)
  note 1 = fifoD[OF f]
  from c have 0: "dtor s \<noteq> Returned \<longrightarrow> abandoned s = []" by (simp add: inv_ctl_def)
  from d have di: "distinct (map snd (claimed s) @ (tasks s @ abandoned s))"
    unfolding inv_ids_def 1 by simp
  from assms(2) have eq: "map snd (claimed s) @ (tasks s @ abandoned s) = xs @ A # ys @ B # zs"
    unfolding 1 by simp
  from assms(3) have "B \<in> set (map snd (claimed s))" by simp
  from split_claimed[OF eq di this]
  have 2: "\<exists>ws. map snd (claimed s) = xs @ A # ys @ B # ws" .
  have 3: "\<not> stop s \<longrightarrow> tasks (snd (enqueue f a w s)) = tasks s @ [next_id s]"
    by (simp add: enqueue_def submit_cases notify_one_def split: option.splits)
  have 4: "tasks s \<noteq> [] \<longrightarrow>
            workers (worker_lock i s) = (workers s)[i := Running (hd (tasks s))] \<and>
            tasks (worker_lock i s) = tl (tasks s)"
    by (simp add: worker_lock_def)
  from 0 1 2 3 4 show ?thesis by blast
qed

theorem fifo_dequeue_order_witness:
  "exec run1 (ThreadPool 1) \<noteq> None \<and>
   accepted (the (exec run1 (ThreadPool 1))) = [] @ 0 # [1] @ 2 # [] \<and>
   2 \<in> snd ` set (claimed (the (exec run1 (ThreadPool 1)))) \<and>
   map snd (claimed (the (exec run1 (ThreadPool 1)))) = [0, 1, 2]"
proof -
  have "exec run1 (ThreadPool 1) \<noteq> None" by (simp add: run1_def run_defs)
  then obtain s where h: "exec run1 (ThreadPool 1) = Some s" by blast
  have a: "accepted s = [] @ 0 # [1] @ 2 # []" using h by (auto simp: run1_def run_defs)
  have c: "claimed s = [(0,0),(0,1),(0,2)]" using h by (auto simp: run1_def run_defs)
  then have b: "2 \<in> snd ` set (claimed s)" by simp
  from fifo_dequeue_order[OF h a b] a b c h show ?thesis by simp
qed

section \<open>Every task once, and the destructor\<close>

lemma running_all_exited: "\<forall>w\<in>set ws. w = Exited \<Longrightarrow> running ws = []"
  by (induction ws rule: running.induct) auto

lemma partition_inv:
  assumes "pool_inv n s"
  shows "mset (accepted s) = mset (executed s @ running (workers s) @ tasks s @ abandoned s)"
    and "distinct (executed s @ running (workers s) @ tasks s @ abandoned s)"
    and "mset (map snd (claimed s)) = mset (executed s @ running (workers s))"
proof -
  from assms have f: "map snd (claimed s) @ tasks s @ abandoned s = accepted s"
    and d: "distinct (accepted s)"
    and p: "mset (map snd (claimed s)) = mset (executed s) + mset (running (workers s))"
    by (simp_all add: pool_inv_def inv_fifo_def inv_ids_def inv_part_def)
  from p show 3: "mset (map snd (claimed s)) = mset (executed s @ running (workers s))" by simp
  have "mset (accepted s) = mset (map snd (claimed s)) + mset (tasks s) + mset (abandoned s)"
    unfolding f[symmetric] by simp
  with 3 show 1: "mset (accepted s) =
      mset (executed s @ running (workers s) @ tasks s @ abandoned s)" by simp
  from mset_eq_imp_distinct_iff[OF 1] d
  show "distinct (executed s @ running (workers s) @ tasks s @ abandoned s)" by simp
qed

lemma drained:
  assumes "pool_inv n s" "dtor s = Returned" "0 < n"
  shows "tasks s = []" and "running (workers s) = []" and "abandoned s = []"
proof -
  from assms(1) have c: "inv_ctl n s" by (simp add: pool_inv_def)
  with assms(2) have all: "\<forall>w\<in>set (workers s). w = Exited" and len: "length (workers s) = n"
    by (simp_all add: inv_ctl_def)
  from all show "running (workers s) = []" by (rule running_all_exited)
  from len assms(3) have "workers s \<noteq> []" by auto
  with all have "Exited \<in> set (workers s)" by (cases "workers s") auto
  with c show "tasks s = []" "abandoned s = []" by (simp_all add: inv_ctl_def)
qed

text \<open>
  C1, as amended. In every state of every run, whatever the number of workers and the
  order in which concurrent callers and workers take the lock, each task that was pushed
  is in exactly one of four places: executed (once), in execution by one worker, in the
  queue, or destroyed with the queue; the dequeued tasks are exactly those of the first
  two places, each dequeued once by a worker of the pool. When the pool has at least one
  worker and its destructor has returned, every pushed task has been dequeued once and
  executed once.
\<close>

theorem each_task_once:
  assumes "exec es (ThreadPool n) = Some s"
  shows "mset (accepted s) = mset (executed s @ running (workers s) @ tasks s @ abandoned s) \<and>
         distinct (executed s @ running (workers s) @ tasks s @ abandoned s) \<and>
         mset (map snd (claimed s)) = mset (executed s @ running (workers s)) \<and>
         (\<forall>c\<in>set (claimed s). fst c < n) \<and>
         (0 < n \<and> dtor s = Returned \<longrightarrow>
            mset (executed s) = mset (accepted s) \<and>
            mset (map snd (claimed s)) = mset (accepted s))"
proof -
  note i = inv_reach[OF assms]
  from i have w: "\<forall>c\<in>set (claimed s). fst c < n" by (simp add: pool_inv_def inv_ctl_def)
  have "0 < n \<and> dtor s = Returned \<longrightarrow>
            mset (executed s) = mset (accepted s) \<and>
            mset (map snd (claimed s)) = mset (accepted s)"
  proof
    assume a: "0 < n \<and> dtor s = Returned"
    then have "tasks s = []" "running (workers s) = []" "abandoned s = []"
      using drained[OF i] by simp_all
    with partition_inv(1,3)[OF i]
    show "mset (executed s) = mset (accepted s) \<and> mset (map snd (claimed s)) = mset (accepted s)"
      by simp
  qed
  with partition_inv[OF i] w show ?thesis by blast
qed

theorem each_task_once_witness:
  "exec run1 (ThreadPool 1) \<noteq> None \<and>
   dtor (the (exec run1 (ThreadPool 1))) = Returned \<and>
   accepted (the (exec run1 (ThreadPool 1))) = [0, 1, 2] \<and>
   mset (executed (the (exec run1 (ThreadPool 1)))) = mset [0, 1, 2] \<and>
   mset (map snd (claimed (the (exec run1 (ThreadPool 1))))) = mset [0, 1, 2]"
proof -
  have "exec run1 (ThreadPool 1) \<noteq> None" by (simp add: run1_def run_defs)
  then obtain s where h: "exec run1 (ThreadPool 1) = Some s" by blast
  have d: "dtor s = Returned" using h by (auto simp: run1_def run_defs)
  have a: "accepted s = [0, 1, 2]" using h by (auto simp: run1_def run_defs)
  have p: "(0::nat) < 1" by simp
  from each_task_once[OF h] p d
  have "mset (executed s) = mset (accepted s) \<and> mset (map snd (claimed s)) = mset (accepted s)"
    by blast
  with d a h show ?thesis by simp
qed

text \<open>
  C1 as stated fails for a pool without workers: a task is pushed, the destructor
  returns, and the task was neither dequeued nor executed.
\<close>

theorem zero_workers_never_execute:
  "map_option dtor (exec zero_run1 (ThreadPool 0)) = Some Returned \<and>
   map_option accepted (exec zero_run1 (ThreadPool 0)) = Some [0] \<and>
   map_option claimed (exec zero_run1 (ThreadPool 0)) = Some [] \<and>
   map_option executed (exec zero_run1 (ThreadPool 0)) = Some [] \<and>
   map_option abandoned (exec zero_run1 (ThreadPool 0)) = Some [0]"
  by (simp add: zero_run1_def run_defs)

lemma step_dtor:
  assumes "step e s = Some s'"
  shows "(e = Dtor_stop \<and> dtor s = Alive \<and> dtor s' = Stopped) \<or>
         (e = Dtor_notify \<and> dtor s = Stopped \<and> dtor s' = Joining 0) \<or>
         (e = Dtor_join \<and> dtor s \<noteq> Alive \<and> dtor s \<noteq> Stopped \<and> dtor s \<noteq> Returned \<and>
            dtor s' \<noteq> Alive \<and> dtor s' \<noteq> Stopped) \<or>
         (e \<noteq> Dtor_stop \<and> e \<noteq> Dtor_notify \<and> e \<noteq> Dtor_join \<and> dtor s' = dtor s)"
proof (cases e)
  case (Submit f a)
  with assms show ?thesis by (auto simp: submit_cases split: if_splits)
next
  case (Notify w)
  with assms show ?thesis by (auto simp: notify_one_def split: if_splits option.splits)
next
  case (Spurious i)
  with assms show ?thesis by (auto split: if_splits)
next
  case (Lock i)
  with assms show ?thesis by (auto simp: worker_lock_def split: if_splits)
next
  case (Run i)
  with assms show ?thesis
    by (auto simp: worker_run_def split: if_splits option.splits wstate.splits)
next
  case Dtor_stop
  with assms show ?thesis by (auto simp: dtor_stop_def split: if_splits)
next
  case Dtor_notify
  with assms show ?thesis by (auto simp: notify_all_def split: if_splits)
next
  case Dtor_join
  with assms show ?thesis by (auto simp: dtor_join_def split: if_splits dstate.splits)
qed

lemma dtor_history:
  assumes "exec es s0 = Some s"
  shows "(dtor s0 = Alive \<and> dtor s \<noteq> Alive \<longrightarrow> Dtor_stop \<in> set es) \<and>
         ((dtor s0 = Alive \<or> dtor s0 = Stopped) \<and> dtor s \<noteq> Alive \<and> dtor s \<noteq> Stopped
            \<longrightarrow> Dtor_notify \<in> set es) \<and>
         (dtor s0 \<noteq> Returned \<and> dtor s = Returned \<longrightarrow> Dtor_join \<in> set es)"
  using assms
proof (induction es arbitrary: s0)
  case Nil
  then show ?case by auto
next
  case (Cons e es)
  from Cons.prems obtain s1 where s1: "step e s0 = Some s1" and r: "exec es s1 = Some s"
    by (auto split: option.splits)
  from step_dtor[OF s1] Cons.IH[OF r] show ?case by auto
qed

text \<open>
  C2, as amended. Every run of a pool with at least one worker can be continued until the
  destructor has returned. When the destructor has returned, it has set the stop flag,
  has called \<open>notify_all\<close> and has joined the workers, every worker thread has ended,
  the queue was empty when it was destroyed, and every task that was pushed has been
  executed and has its result in its shared state.
\<close>

theorem destructor_drains:
  fixes es :: "('a, 'v) event list"
  assumes "exec es (ThreadPool n) = Some s" and "0 < n"
  shows "(\<exists>(es' :: ('a, 'v) event list) s'. exec es' s = Some s' \<and> dtor s' = Returned) \<and>
         (dtor s = Returned \<longrightarrow>
            Dtor_stop \<in> set es \<and> Dtor_notify \<in> set es \<and> Dtor_join \<in> set es \<and>
            stop s \<and> length (workers s) = n \<and> (\<forall>w\<in>set (workers s). w = Exited) \<and>
            abandoned s = [] \<and> mset (executed s) = mset (accepted s) \<and>
            (\<forall>t\<in>set (accepted s). \<exists>p. heap s t = Some p \<and> shared p = Ready (callable p ())))"
proof -
  note i = inv_reach[OF assms(1)]
  from can_finish[OF i, where ?'a = 'a]
  have 0: "\<exists>(es' :: ('a, 'v) event list) s'. exec es' s = Some s' \<and> dtor s' = Returned" .
  have "dtor s = Returned \<longrightarrow>
            Dtor_stop \<in> set es \<and> Dtor_notify \<in> set es \<and> Dtor_join \<in> set es \<and>
            stop s \<and> length (workers s) = n \<and> (\<forall>w\<in>set (workers s). w = Exited) \<and>
            abandoned s = [] \<and> mset (executed s) = mset (accepted s) \<and>
            (\<forall>t\<in>set (accepted s). \<exists>p. heap s t = Some p \<and> shared p = Ready (callable p ()))"
  proof
    assume d: "dtor s = Returned"
    from dtor_history[OF assms(1)] d
    have 1: "Dtor_stop \<in> set es \<and> Dtor_notify \<in> set es \<and> Dtor_join \<in> set es"
      by (simp add: ThreadPool_def)
    from i d have 2: "stop s \<and> length (workers s) = n \<and> (\<forall>w\<in>set (workers s). w = Exited)"
      by (simp add: pool_inv_def inv_ctl_def)
    from drained[OF i d assms(2)] have t: "tasks s = []" and r: "running (workers s) = []"
      and 3: "abandoned s = []" .
    from partition_inv(1)[OF i] t 3 r have 4: "mset (executed s) = mset (accepted s)" by simp
    then have "set (executed s) = set (accepted s)" by (rule mset_eq_setD)
    with i have 5: "\<forall>t\<in>set (accepted s). \<exists>p. heap s t = Some p \<and> shared p = Ready (callable p ())"
      by (auto simp: pool_inv_def inv_heap_def)
    from 1 2 3 4 5
    show "Dtor_stop \<in> set es \<and> Dtor_notify \<in> set es \<and> Dtor_join \<in> set es \<and>
            stop s \<and> length (workers s) = n \<and> (\<forall>w\<in>set (workers s). w = Exited) \<and>
            abandoned s = [] \<and> mset (executed s) = mset (accepted s) \<and>
            (\<forall>t\<in>set (accepted s). \<exists>p. heap s t = Some p \<and> shared p = Ready (callable p ()))"
      by blast
  qed
  with 0 show ?thesis by blast
qed

theorem destructor_drains_witness:
  "exec main_events (ThreadPool 4) \<noteq> None \<and>
   dtor (the (exec main_events (ThreadPool 4))) = Returned \<and> (0::nat) < 4 \<and>
   stop (the (exec main_events (ThreadPool 4))) \<and>
   workers (the (exec main_events (ThreadPool 4))) = [Exited, Exited, Exited, Exited] \<and>
   abandoned (the (exec main_events (ThreadPool 4))) = [] \<and>
   mset (executed (the (exec main_events (ThreadPool 4)))) = mset [0, 1, 2, 3]"
proof -
  have "exec main_events (ThreadPool 4) \<noteq> None"
    by (simp add: main_events_def main_work_def run_defs eval_nat_numeral)
  then obtain s where h: "exec main_events (ThreadPool 4) = Some s" by blast
  have d: "dtor s = Returned" using h
    by (auto simp: main_events_def main_work_def run_defs eval_nat_numeral)
  have a: "accepted s = [0, 1, 2, 3]" using h
    by (auto simp: main_events_def main_work_def run_defs eval_nat_numeral)
  have w: "workers s = [Exited, Exited, Exited, Exited]" using h
    by (auto simp: main_events_def main_work_def run_defs eval_nat_numeral)
  have p: "(0::nat) < 4" by simp
  from destructor_drains[OF h p] d
  have "stop s \<and> abandoned s = [] \<and> mset (executed s) = mset (accepted s)" by blast
  with d a w h show ?thesis by simp
qed

text \<open>
  C2 as stated fails for a pool without workers: its destructor returns with none of the
  two queued tasks executed; both were destroyed with the queue.
\<close>

theorem zero_workers_abandon_queue:
  "map_option dtor (exec zero_run2 (ThreadPool 0)) = Some Returned \<and>
   map_option accepted (exec zero_run2 (ThreadPool 0)) = Some [0, 1] \<and>
   map_option executed (exec zero_run2 (ThreadPool 0)) = Some [] \<and>
   map_option abandoned (exec zero_run2 (ThreadPool 0)) = Some [0, 1]"
  by (simp add: zero_run2_def run_defs)

section \<open>A stopped pool accepts nothing\<close>

lemma enqueue_stopped:
  "stop s \<Longrightarrow> enqueue f a w s =
     (Inl PoolClosed, s\<lparr>heap := (heap s)(next_id s := None), next_id := Suc (next_id s)\<rparr>)"
  by (simp add: enqueue_def submit_cases)

lemma step_stopped:
  assumes "step e s = Some s'" "stop s"
  shows "stop s' \<and> accepted s' = accepted s \<and>
         (tasks s' = tasks s \<or> tasks s' = tl (tasks s) \<or> dtor s' = Returned)"
proof (cases e)
  case (Submit f a)
  with assms show ?thesis by (auto simp: submit_cases split: if_splits)
next
  case (Notify w)
  with assms show ?thesis by (auto simp: notify_one_def split: if_splits option.splits)
next
  case (Spurious i)
  with assms show ?thesis by (auto split: if_splits)
next
  case (Lock i)
  with assms show ?thesis by (auto simp: worker_lock_def split: if_splits)
next
  case (Run i)
  with assms show ?thesis
    by (auto simp: worker_run_def split: if_splits option.splits wstate.splits)
next
  case Dtor_stop
  with assms show ?thesis by (auto simp: dtor_stop_def split: if_splits)
next
  case Dtor_notify
  with assms show ?thesis by (auto simp: notify_all_def split: if_splits)
next
  case Dtor_join
  with assms show ?thesis by (auto simp: dtor_join_def split: if_splits dstate.splits)
qed

lemma exec_stopped: "exec es s = Some s' \<Longrightarrow> stop s \<Longrightarrow> stop s' \<and> accepted s' = accepted s"
proof (induction es arbitrary: s)
  case Nil
  then show ?case by simp
next
  case (Cons e es)
  from Cons.prems obtain s1 where s1: "step e s = Some s1" and r: "exec es s1 = Some s'"
    by (auto split: option.splits)
  from step_stopped[OF s1 Cons.prems(2)] Cons.IH[OF r] show ?case by simp
qed

text \<open>
  C3. A call of \<open>enqueue\<close> on a pool whose stop flag is set (and whose destructor has
  not returned, so that the pool still exists) fails with \<open>PoolClosed\<close>
  (the \<open>std::runtime_error\<close> of line 105) in the calling thread: no future is returned,
  the queue, the workers and the log of pushed tasks are as before, the task object made
  for the call is gone, and in no continuation of the run is that task queued, in
  execution, executed or destroyed with the queue.
\<close>

theorem enqueue_after_stop:
  assumes "exec es (ThreadPool n) = Some s" and "stop s" and "dtor s \<noteq> Returned"
    and "exec es' (snd (enqueue f a w s)) = Some s'"
  shows "fst (enqueue f a w s) = Inl PoolClosed \<and>
         tasks (snd (enqueue f a w s)) = tasks s \<and>
         accepted (snd (enqueue f a w s)) = accepted s \<and>
         workers (snd (enqueue f a w s)) = workers s \<and>
         owed (snd (enqueue f a w s)) = owed s \<and>
         heap (snd (enqueue f a w s)) (next_id s) = None \<and>
         next_id s \<notin> set (tasks s') \<and> next_id s \<notin> set (running (workers s')) \<and>
         next_id s \<notin> set (executed s') \<and> next_id s \<notin> set (abandoned s')"
proof -
  let ?s1 = "snd (enqueue f a w s)"
  from assms(2) have eq: "enqueue f a w s =
     (Inl PoolClosed, s\<lparr>heap := (heap s)(next_id s := None), next_id := Suc (next_id s)\<rparr>)"
    by (rule enqueue_stopped)
  from assms(2) have "?s1 = snd (submit f a s)" by (simp add: enqueue_def submit_cases)
  with inv_submit[OF inv_reach[OF assms(1)], of f a] assms(2) have "pool_inv n ?s1" by simp
  from inv_exec[OF this assms(4)] have i: "pool_inv n s'" .
  from eq assms(2) have "stop ?s1" by simp
  from exec_stopped[OF assms(4) this] eq have acc: "accepted s' = accepted s" by simp
  from inv_reach[OF assms(1)] have "\<forall>t\<in>set (accepted s). t < next_id s"
    by (simp add: pool_inv_def inv_ids_def)
  with acc have "next_id s \<notin> set (accepted s')" by auto
  then have "next_id s \<notin># mset (accepted s')" by simp
  with partition_inv(1)[OF i]
  have "next_id s \<notin> set (tasks s') \<and> next_id s \<notin> set (running (workers s')) \<and>
         next_id s \<notin> set (executed s') \<and> next_id s \<notin> set (abandoned s')" by auto
  with eq show ?thesis by simp
qed

theorem enqueue_after_stop_witness:
  "exec [Dtor_stop :: (int, int) event] (ThreadPool 1) = Some stopped_pool \<and> stop stopped_pool \<and>
   exec [Dtor_notify :: (int, int) event, Lock 0, Dtor_join, Dtor_join]
     (snd (enqueue f_example 5 0 stopped_pool)) \<noteq> None \<and>
   fst (enqueue f_example 5 0 stopped_pool) = Inl PoolClosed \<and>
   tasks (snd (enqueue f_example 5 0 stopped_pool)) = [] \<and>
   executed (the (exec [Dtor_notify :: (int, int) event, Lock 0, Dtor_join, Dtor_join]
     (snd (enqueue f_example 5 0 stopped_pool)))) = []"
proof -
  have h: "exec [Dtor_stop :: (int, int) event] (ThreadPool 1) = Some stopped_pool"
    by (simp add: stopped_pool_def run_defs)
  have st: "stop stopped_pool" by (simp add: stopped_pool_def run_defs)
  have "exec [Dtor_notify :: (int, int) event, Lock 0, Dtor_join, Dtor_join]
     (snd (enqueue f_example 5 0 stopped_pool)) \<noteq> None"
    by (simp add: stopped_pool_def run_defs)
  then obtain s' where h': "exec [Dtor_notify :: (int, int) event, Lock 0, Dtor_join, Dtor_join]
     (snd (enqueue f_example 5 0 stopped_pool)) = Some s'" by blast
  have e: "executed s' = []" using h' by (auto simp: stopped_pool_def run_defs)
  have t: "tasks stopped_pool = []" by (simp add: stopped_pool_def run_defs)
  have d: "dtor stopped_pool \<noteq> Returned" by (simp add: stopped_pool_def run_defs)
  from enqueue_after_stop[OF h st d h'] h st h' e t show ?thesis by simp
qed

lemma enqueue_begin_eq:
  "enqueue_begin f args s =
     (\<lparr>f_after = snd (forward_into f), args_after = snd (forward_into args),
       call_task = next_id s, call_res = \<lparr>state_of = next_id s, valid = True\<rparr>\<rparr>,
      snd (make_task (passed_value f) (passed_value args) s))"
  by (cases f; cases args) (simp_all add: enqueue_begin_def make_task_def)

lemma enqueue_call_enqueue:
  "(fst (fst (enqueue_call f args w s)), snd (enqueue_call f args w s)) =
     enqueue (passed_value f) (passed_value args) w s"
  by (cases "stop s")
    (simp_all add: enqueue_call_def enqueue_begin_eq enqueue_finish_def enqueue_def submit_def
      make_task_def publish_def)

text \<open>
  C10, amended. \<open>enqueue\<close> makes the task object from the caller's callable and
  argument before it takes the lock and looks at the stop flag: the first part of the call
  gives the same result whatever the flag is, and a call that made its task while the pool
  was accepting and finds the flag set afterwards fails all the same. On a stopped pool
  the call fails with \<open>PoolClosed\<close>; by then the callable and the argument have been
  forwarded into the task object, which held the callable bound to the argument: an
  object passed as an rvalue has been moved from, one passed as an lvalue has been copied
  and is intact. The task object is discarded again, and queue, stop flag, workers, the
  log of pushed tasks and the pending wake-ups are unchanged. The pool part of the call
  is \<open>enqueue\<close> on the values passed.
\<close>

theorem task_built_before_check:
  assumes "stop s"
  shows "fst (enqueue_call f args w s) =
           (Inl PoolClosed,
            (case f of Lvalue g \<Rightarrow> Intact g | Rvalue g \<Rightarrow> Moved_from),
            (case args of Lvalue a \<Rightarrow> Intact a | Rvalue a \<Rightarrow> Moved_from)) \<and>
         f_after (fst (enqueue_begin f args s)) =
           (case f of Lvalue g \<Rightarrow> Intact g | Rvalue g \<Rightarrow> Moved_from) \<and>
         args_after (fst (enqueue_begin f args s)) =
           (case args of Lvalue a \<Rightarrow> Intact a | Rvalue a \<Rightarrow> Moved_from) \<and>
         heap (snd (enqueue_begin f args s)) (next_id s) =
           Some \<lparr>callable = (\<lambda>_. passed_value f (passed_value args)), shared = Pending\<rparr> \<and>
         fst (enqueue_begin f args (s\<lparr>stop := False\<rparr>)) = fst (enqueue_begin f args s) \<and>
         enqueue_call f args w s =
           (case enqueue_begin f args s of (c, s1) \<Rightarrow>
              ((Inl PoolClosed, f_after c, args_after c), s1\<lparr>heap := (heap s1)(call_task c := None)\<rparr>)) \<and>
         heap (snd (enqueue_call f args w s)) (next_id s) = None \<and>
         tasks (snd (enqueue_call f args w s)) = tasks s \<and>
         stop (snd (enqueue_call f args w s)) = stop s \<and>
         workers (snd (enqueue_call f args w s)) = workers s \<and>
         accepted (snd (enqueue_call f args w s)) = accepted s \<and>
         owed (snd (enqueue_call f args w s)) = owed s \<and>
         (fst (fst (enqueue_call f args w s)), snd (enqueue_call f args w s)) =
           enqueue (passed_value f) (passed_value args) w s \<and>
         fst (enqueue_finish (fst (enqueue_begin f args s0)) w
               (dtor_stop (snd (enqueue_begin f args s0)))) = Inl PoolClosed \<and>
         tasks (snd (enqueue_finish (fst (enqueue_begin f args s0)) w
               (dtor_stop (snd (enqueue_begin f args s0))))) = tasks s0"
proof -
  have a: "snd (forward_into f) = (case f of Lvalue g \<Rightarrow> Intact g | Rvalue g \<Rightarrow> Moved_from)"
    by (cases f) simp_all
  have b: "snd (forward_into args) = (case args of Lvalue a \<Rightarrow> Intact a | Rvalue a \<Rightarrow> Moved_from)"
    by (cases args) simp_all
  have 1: "fst (enqueue_call f args w s) =
           (Inl PoolClosed,
            (case f of Lvalue g \<Rightarrow> Intact g | Rvalue g \<Rightarrow> Moved_from),
            (case args of Lvalue a \<Rightarrow> Intact a | Rvalue a \<Rightarrow> Moved_from))"
    using assms a b
    by (simp add: enqueue_call_def enqueue_begin_eq enqueue_finish_def make_task_def publish_def)
  have 2: "f_after (fst (enqueue_begin f args s)) =
           (case f of Lvalue g \<Rightarrow> Intact g | Rvalue g \<Rightarrow> Moved_from)"
    "args_after (fst (enqueue_begin f args s)) =
           (case args of Lvalue a \<Rightarrow> Intact a | Rvalue a \<Rightarrow> Moved_from)"
    using a b by (simp_all add: enqueue_begin_eq)
  have 3: "heap (snd (enqueue_begin f args s)) (next_id s) =
           Some \<lparr>callable = (\<lambda>_. passed_value f (passed_value args)), shared = Pending\<rparr>"
    by (simp add: enqueue_begin_eq make_task_def)
  have 4: "fst (enqueue_begin f args (s\<lparr>stop := False\<rparr>)) = fst (enqueue_begin f args s)"
    by (simp add: enqueue_begin_eq)
  have 5: "enqueue_call f args w s =
           (case enqueue_begin f args s of (c, s1) \<Rightarrow>
              ((Inl PoolClosed, f_after c, args_after c), s1\<lparr>heap := (heap s1)(call_task c := None)\<rparr>))"
    using assms
    by (simp add: enqueue_call_def enqueue_begin_eq enqueue_finish_def make_task_def publish_def)
  have 6: "heap (snd (enqueue_call f args w s)) (next_id s) = None"
    "tasks (snd (enqueue_call f args w s)) = tasks s"
    "stop (snd (enqueue_call f args w s)) = stop s"
    "workers (snd (enqueue_call f args w s)) = workers s"
    "accepted (snd (enqueue_call f args w s)) = accepted s"
    "owed (snd (enqueue_call f args w s)) = owed s"
    using assms
    by (simp_all add: enqueue_call_def enqueue_begin_eq enqueue_finish_def make_task_def
        publish_def)
  have 7: "fst (enqueue_finish (fst (enqueue_begin f args s0)) w
               (dtor_stop (snd (enqueue_begin f args s0)))) = Inl PoolClosed"
    "tasks (snd (enqueue_finish (fst (enqueue_begin f args s0)) w
               (dtor_stop (snd (enqueue_begin f args s0))))) = tasks s0"
    by (simp_all add: enqueue_begin_eq enqueue_finish_def make_task_def publish_def dtor_stop_def)
  from 1 2 3 4 5 6 7 enqueue_call_enqueue[of f args w s] show ?thesis by simp
qed

theorem task_built_before_check_witness:
  "stop stopped_pool \<and>
   fst (enqueue_call (Lvalue f_example) (Rvalue 5) 0 stopped_pool) =
     (Inl PoolClosed, Intact f_example, Moved_from) \<and>
   heap (snd (enqueue_begin (Lvalue f_example) (Rvalue 5) stopped_pool)) 0 =
     Some \<lparr>callable = (\<lambda>_. f_example 5), shared = Pending\<rparr> \<and>
   heap (snd (enqueue_call (Lvalue f_example) (Rvalue 5) 0 stopped_pool)) 0 = None \<and>
   tasks (snd (enqueue_call (Lvalue f_example) (Rvalue 5) 0 stopped_pool)) = []"
proof -
  have st: "stop stopped_pool" by (simp add: stopped_pool_def run_defs)
  have n: "next_id stopped_pool = 0" "tasks stopped_pool = []"
    by (simp_all add: stopped_pool_def run_defs)
  note t = task_built_before_check[OF st, of "Lvalue f_example" "Rvalue 5" 0 stopped_pool]
  note c2 = conjunct2
  from t[THEN conjunct1]
  have 1: "fst (enqueue_call (Lvalue f_example) (Rvalue 5) 0 stopped_pool) =
     (Inl PoolClosed, Intact f_example, Moved_from)" by simp
  from t[THEN c2, THEN c2, THEN c2, THEN conjunct1] n
  have 2: "heap (snd (enqueue_begin (Lvalue f_example) (Rvalue 5) stopped_pool)) 0 =
     Some \<lparr>callable = (\<lambda>_. f_example 5), shared = Pending\<rparr>" by simp
  from t[THEN c2, THEN c2, THEN c2, THEN c2, THEN c2, THEN c2, THEN conjunct1] n
  have 3: "heap (snd (enqueue_call (Lvalue f_example) (Rvalue 5) 0 stopped_pool)) 0 = None"
    by simp
  from t[THEN c2, THEN c2, THEN c2, THEN c2, THEN c2, THEN c2, THEN c2, THEN conjunct1] n
  have 4: "tasks (snd (enqueue_call (Lvalue f_example) (Rvalue 5) 0 stopped_pool)) = []"
    by simp
  from st 1 2 3 4 show ?thesis by simp
qed

text \<open>
  C10 as stated says that the callable has been moved into the task object. The calls in
  \<open>example.cpp\<close>, \<open>pool.enqueue(f, 1)\<close>, pass the function \<open>f\<close> as an lvalue: on a
  stopped pool the call fails and the caller's \<open>f\<close> is intact, it was copied.
\<close>

theorem lvalue_callable_is_copied:
  "stop stopped_pool \<and>
   fst (enqueue_call (Lvalue f_example) (Rvalue 1) 0 stopped_pool) =
     (Inl PoolClosed, Intact f_example, Moved_from)"
  by (simp add: stopped_pool_def enqueue_call_def enqueue_begin_def enqueue_finish_def run_defs)

section \<open>The worker's exit and the wake-ups\<close>

lemma step_accepted: "step e s = Some s' \<Longrightarrow> t \<in> set (accepted s) \<Longrightarrow> t \<in> set (accepted s')"
proof (cases e)
  case (Submit f a)
  then show "step e s = Some s' \<Longrightarrow> t \<in> set (accepted s) \<Longrightarrow> t \<in> set (accepted s')"
    by (auto simp: submit_cases split: if_splits)
next
  case (Notify w)
  then show "step e s = Some s' \<Longrightarrow> t \<in> set (accepted s) \<Longrightarrow> t \<in> set (accepted s')"
    by (auto simp: notify_one_def split: if_splits option.splits)
next
  case (Spurious i)
  then show "step e s = Some s' \<Longrightarrow> t \<in> set (accepted s) \<Longrightarrow> t \<in> set (accepted s')"
    by (auto split: if_splits)
next
  case (Lock i)
  then show "step e s = Some s' \<Longrightarrow> t \<in> set (accepted s) \<Longrightarrow> t \<in> set (accepted s')"
    by (auto simp: worker_lock_def split: if_splits)
next
  case (Run i)
  then show "step e s = Some s' \<Longrightarrow> t \<in> set (accepted s) \<Longrightarrow> t \<in> set (accepted s')"
    by (auto simp: worker_run_def split: if_splits option.splits wstate.splits)
next
  case Dtor_stop
  then show "step e s = Some s' \<Longrightarrow> t \<in> set (accepted s) \<Longrightarrow> t \<in> set (accepted s')"
    by (auto simp: dtor_stop_def split: if_splits)
next
  case Dtor_notify
  then show "step e s = Some s' \<Longrightarrow> t \<in> set (accepted s) \<Longrightarrow> t \<in> set (accepted s')"
    by (auto simp: notify_all_def split: if_splits)
next
  case Dtor_join
  then show "step e s = Some s' \<Longrightarrow> t \<in> set (accepted s) \<Longrightarrow> t \<in> set (accepted s')"
    by (auto simp: dtor_join_def split: if_splits dstate.splits)
qed

lemma exec_accepted: "exec es s = Some s' \<Longrightarrow> t \<in> set (accepted s) \<Longrightarrow> t \<in> set (accepted s')"
proof (induction es arbitrary: s)
  case Nil
  then show ?case by simp
next
  case (Cons e es)
  then show ?case by (auto split: option.splits dest: step_accepted)
qed

lemma step_worker:
  assumes "step e s = Some s'" "i < length (workers s)"
  shows "workers s' ! i = workers s ! i \<or>
         (workers s ! i = Blocked \<and> workers s' ! i = Acquire) \<or>
         (e = Lock i \<and> workers s ! i = Acquire \<and> workers s' ! i = workers (worker_lock i s) ! i) \<or>
         (e = Run i \<and> workers s ! i \<noteq> Blocked \<and> workers s ! i \<noteq> Exited \<and>
            (workers s' ! i = Acquire \<or> workers s' ! i = Crashed))"
proof (cases e)
  case (Submit f a)
  with assms show ?thesis by (auto simp: submit_cases split: if_splits)
next
  case (Notify w)
  with assms(1) have eq: "s' = notify_one w s" by (auto split: if_splits)
  from notify_one_cases[of w s] show ?thesis
  proof (elim disjE conjE exE)
    assume "notify_one w s = s\<lparr>owed := owed s - 1\<rparr>"
    with eq show ?thesis by simp
  next
    fix j assume j: "j < length (workers s)" "workers s ! j = Blocked"
      and "notify_one w s = s\<lparr>workers := (workers s)[j := Acquire], owed := owed s - 1\<rparr>"
    with eq have "workers s' = (workers s)[j := Acquire]" by simp
    with j assms(2) show ?thesis by (cases "j = i") simp_all
  qed
next
  case (Spurious j)
  with assms show ?thesis by (auto simp: nth_list_update split: if_splits)
next
  case (Lock j)
  with assms show ?thesis
    by (cases "j = i") (auto simp: worker_lock_def nth_list_update split: if_splits)
next
  case (Run j)
  with assms show ?thesis
    by (cases "j = i")
      (auto simp: worker_run_def nth_list_update split: if_splits option.splits wstate.splits)
next
  case Dtor_stop
  with assms show ?thesis by (auto simp: dtor_stop_def split: if_splits)
next
  case Dtor_notify
  with assms show ?thesis by (auto simp: notify_all_def wake_def split: if_splits)
next
  case Dtor_join
  with assms show ?thesis by (auto simp: dtor_join_def split: if_splits dstate.splits)
qed

lemma worker_lock_nth:
  assumes "i < length (workers s)"
  shows "workers (worker_lock i s) ! i =
     (if \<not> (stop s \<or> tasks s \<noteq> []) then Blocked
      else if stop s \<and> tasks s = [] then Exited else Running (hd (tasks s)))"
  using assms by (simp add: worker_lock_def)

lemma step_exit:
  assumes "step e s = Some s'" "i < length (workers s)" "workers s ! i \<noteq> Exited"
  shows "workers s' ! i = Exited \<longleftrightarrow> e = Lock i \<and> stop s \<and> tasks s = []"
proof
  assume x: "workers s' ! i = Exited"
  with step_worker[OF assms(1,2)] assms(3)
  have "e = Lock i \<and> workers (worker_lock i s) ! i = Exited" by auto
  then show "e = Lock i \<and> stop s \<and> tasks s = []"
    by (auto simp: worker_lock_nth[OF assms(2)] split: if_splits)
next
  assume x: "e = Lock i \<and> stop s \<and> tasks s = []"
  with assms(1) have "s' = worker_lock i s" by (auto split: if_splits)
  with x show "workers s' ! i = Exited" by (simp add: worker_lock_nth[OF assms(2)])
qed

lemma step_run_executes:
  assumes "pool_inv n s" "step (Run i) s = Some s'"
  shows "workers s' ! i = Acquire \<and>
         (\<exists>t p. workers s ! i = Running t \<and> heap s t = Some p \<and> shared p = Pending \<and>
            executed s' = executed s @ [t] \<and>
            heap s' t = Some (p\<lparr>shared := Ready (callable p ())\<rparr>) \<and> tasks s' = tasks s)"
proof -
  from assms(2) obtain t where i: "i < length (workers s)" and r: "workers s ! i = Running t"
    and eq: "s' = worker_run i t s"
    by (auto split: if_splits wstate.splits)
  from worker_run_ok[OF assms(1) i r] obtain p where p: "heap s t = Some p" "shared p = Pending"
    and w: "worker_run i t s = s\<lparr>workers := (workers s)[i := Acquire],
        heap := (heap s)(t \<mapsto> p\<lparr>shared := Ready (callable p ())\<rparr>),
        executed := executed s @ [t]\<rparr>" by blast
  from eq w i have "workers s' ! i = Acquire" "executed s' = executed s @ [t]"
    "heap s' t = Some (p\<lparr>shared := Ready (callable p ())\<rparr>)" "tasks s' = tasks s" by simp_all
  with r p show ?thesis by blast
qed

lemma step_lock_claim:
  assumes "step (Lock i) s = Some s'" "tasks s \<noteq> []"
  shows "workers s' ! i = Running (hd (tasks s)) \<and> tasks s' = tl (tasks s) \<and>
         claimed s' = claimed s @ [(i, hd (tasks s))]"
  using assms by (auto simp: worker_lock_def split: if_splits)

lemma queue_drained:
  assumes "pool_inv n s" "0 < n" "exec es' s = Some s2" "dtor s2 = Returned"
  shows "tasks s2 = [] \<and> set (tasks s) \<subseteq> set (executed s2) \<and>
         (\<forall>t\<in>set (tasks s). \<exists>p. heap s2 t = Some p \<and> shared p = Ready (callable p ()))"
proof -
  from inv_exec[OF assms(1,3)] have i2: "pool_inv n s2" .
  from drained[OF i2 assms(4,2)]
  have t: "tasks s2 = []" and r: "running (workers s2) = []" and a: "abandoned s2 = []" .
  from partition_inv(1)[OF i2] t r a have "mset (accepted s2) = mset (executed s2)" by simp
  then have eq: "set (accepted s2) = set (executed s2)" by (rule mset_eq_setD)
  from assms(1) have "inv_fifo s" by (simp add: pool_inv_def)
  from fifoD[OF this] have "set (tasks s) \<subseteq> set (accepted s)" by auto
  with exec_accepted[OF assms(3)] have sub: "set (tasks s) \<subseteq> set (accepted s2)" by blast
  with eq have 1: "set (tasks s) \<subseteq> set (executed s2)" by simp
  from i2 have "inv_heap s2" by (simp add: pool_inv_def)
  with sub 1 have "\<forall>t\<in>set (tasks s). \<exists>p. heap s2 t = Some p \<and> shared p = Ready (callable p ())"
    unfolding inv_heap_def by fastforce
  with t 1 show ?thesis by blast
qed

lemma step_not_returned:
  assumes "pool_inv n s" "step e s = Some s'" "i < length (workers s)"
    "workers s ! i \<noteq> Exited"
  shows "dtor s' \<noteq> Returned"
proof (cases "e = Dtor_join")
  case True
  with assms(2) have w: "workers s' = workers s"
    by (auto simp: dtor_join_def split: dstate.splits if_splits)
  from inv_step[OF assms(1,2)] have "inv_ctl n s'" by (simp add: pool_inv_def)
  from live_worker(1)[OF this] w assms(3,4) show ?thesis by simp
next
  case False
  from assms(1) have "inv_ctl n s" by (simp add: pool_inv_def)
  from live_worker(1)[OF this assms(3,4)] step_dtor[OF assms(2)] False show ?thesis by auto
qed

text \<open>
  C5. In a step of a run, a worker that has not ended ends exactly when the step is its
  own critical section and it finds the stop flag set and the queue empty. When it finds
  the queue non-empty it takes the front task, whether or not the stop flag is set, and
  is recorded as the one that dequeued it. The step that follows for this worker executes
  that task: the task's callable is invoked, its result is stored in the shared state,
  the task joins the log of executed tasks, and the worker is back at the head of its
  loop. Once the stop flag is set it stays set, nothing more is pushed, and the queue
  only shrinks from the front. However the run goes on, if it reaches the end of the
  destructor then the queue is empty and every task that was queued has been executed,
  with its result stored; and the run can always go on to the end of the destructor.
\<close>

theorem worker_exit_condition:
  fixes es :: "('a, 'v) event list"
  assumes "exec es (ThreadPool n) = Some s" and "step e s = Some s'"
    and "i < length (workers s)" and "workers s ! i \<noteq> Exited"
  shows "(workers s' ! i = Exited \<longleftrightarrow> e = Lock i \<and> stop s \<and> tasks s = []) \<and>
         (e = Lock i \<and> tasks s \<noteq> [] \<longrightarrow>
            workers s' ! i = Running (hd (tasks s)) \<and> tasks s' = tl (tasks s) \<and>
            claimed s' = claimed s @ [(i, hd (tasks s))]) \<and>
         (e = Run i \<longrightarrow>
            workers s' ! i = Acquire \<and>
            (\<exists>t p. workers s ! i = Running t \<and> heap s t = Some p \<and> shared p = Pending \<and>
               executed s' = executed s @ [t] \<and>
               heap s' t = Some (p\<lparr>shared := Ready (callable p ())\<rparr>) \<and> tasks s' = tasks s)) \<and>
         (stop s \<longrightarrow>
            stop s' \<and> accepted s' = accepted s \<and> (tasks s' = tasks s \<or> tasks s' = tl (tasks s))) \<and>
         (\<forall>(es' :: ('a, 'v) event list) s2. exec es' s = Some s2 \<and> dtor s2 = Returned \<longrightarrow>
            tasks s2 = [] \<and> set (tasks s) \<subseteq> set (executed s2) \<and>
            (\<forall>t\<in>set (tasks s). \<exists>p. heap s2 t = Some p \<and> shared p = Ready (callable p ()))) \<and>
         (\<exists>(es' :: ('a, 'v) event list) s2. exec es' s = Some s2 \<and> dtor s2 = Returned)"
proof -
  note inv = inv_reach[OF assms(1)]
  from inv assms(3) have n: "0 < n" by (auto simp: pool_inv_def inv_ctl_def)
  have 1: "workers s' ! i = Exited \<longleftrightarrow> e = Lock i \<and> stop s \<and> tasks s = []"
    by (rule step_exit[OF assms(2,3,4)])
  have 2: "e = Lock i \<and> tasks s \<noteq> [] \<longrightarrow>
            workers s' ! i = Running (hd (tasks s)) \<and> tasks s' = tl (tasks s) \<and>
            claimed s' = claimed s @ [(i, hd (tasks s))]"
    using step_lock_claim[of i s s'] assms(2) by blast
  have 3: "e = Run i \<longrightarrow>
            workers s' ! i = Acquire \<and>
            (\<exists>t p. workers s ! i = Running t \<and> heap s t = Some p \<and> shared p = Pending \<and>
               executed s' = executed s @ [t] \<and>
               heap s' t = Some (p\<lparr>shared := Ready (callable p ())\<rparr>) \<and> tasks s' = tasks s)"
    using step_run_executes[OF inv, of i s'] assms(2) by blast
  have 4: "stop s \<longrightarrow>
            stop s' \<and> accepted s' = accepted s \<and> (tasks s' = tasks s \<or> tasks s' = tl (tasks s))"
    using step_stopped[OF assms(2)] step_not_returned[OF inv assms(2,3,4)] by blast
  have 5: "\<forall>(es' :: ('a, 'v) event list) s2. exec es' s = Some s2 \<and> dtor s2 = Returned \<longrightarrow>
            tasks s2 = [] \<and> set (tasks s) \<subseteq> set (executed s2) \<and>
            (\<forall>t\<in>set (tasks s). \<exists>p. heap s2 t = Some p \<and> shared p = Ready (callable p ()))"
    using queue_drained[OF inv n] by blast
  from can_finish[OF inv, where ?'a = 'a]
  have 6: "\<exists>(es' :: ('a, 'v) event list) s2. exec es' s = Some s2 \<and> dtor s2 = Returned" .
  from 1 2 3 4 5 6 show ?thesis by blast
qed

theorem worker_exit_condition_witness:
  "exec [Submit f_example 1, Notify 0, Dtor_stop] (ThreadPool 1) = Some draining_pool \<and>
   stop draining_pool \<and> tasks draining_pool = [0] \<and> workers draining_pool = [Acquire] \<and>
   step (Lock 0 :: (int, int) event) draining_pool = Some executing_pool \<and>
   workers executing_pool = [Running 0] \<and> tasks executing_pool = [] \<and>
   executed executing_pool = [] \<and>
   step (Run 0 :: (int, int) event) executing_pool \<noteq> None \<and>
   workers (the (step (Run 0 :: (int, int) event) executing_pool)) ! 0 = Acquire \<and>
   executed (the (step (Run 0 :: (int, int) event) executing_pool)) = [0] \<and>
   map_option shared (heap (the (step (Run 0 :: (int, int) event) executing_pool)) 0)
     = Some (Ready (Value 1))"
proof -
  have h: "exec [Submit f_example 1, Notify 0, Dtor_stop] (ThreadPool 1) = Some draining_pool"
    by (simp add: draining_pool_def run_defs)
  have f: "stop draining_pool" "tasks draining_pool = [0]" "workers draining_pool = [Acquire]"
    by (simp_all add: draining_pool_def run_defs)
  have st: "step (Lock 0 :: (int, int) event) draining_pool = Some executing_pool"
    using f by (simp add: executing_pool_def)
  have i: "0 < length (workers draining_pool)" and ne: "workers draining_pool ! 0 \<noteq> Exited"
    using f by simp_all
  have len: "length (workers executing_pool) = 1"
    using f by (simp add: executing_pool_def worker_lock_def)
  from worker_exit_condition[OF h st i ne] f
  have "workers executing_pool ! 0 = Running 0 \<and> tasks executing_pool = []" by simp
  with len have l: "workers executing_pool = [Running 0]" "tasks executing_pool = []"
    by (cases "workers executing_pool"; auto)+
  have h2: "exec [Submit f_example 1, Notify 0, Dtor_stop, Lock 0] (ThreadPool 1)
      = Some executing_pool"
    by (simp add: executing_pool_def draining_pool_def run_defs)
  have x: "executed executing_pool = []"
    and hp: "heap executing_pool 0 = Some \<lparr>callable = (\<lambda>_. f_example 1), shared = Pending\<rparr>"
    by (simp_all add: executing_pool_def draining_pool_def run_defs)
  have "step (Run 0 :: (int, int) event) executing_pool \<noteq> None" using l by simp
  then obtain s2 where st2: "step (Run 0 :: (int, int) event) executing_pool = Some s2" by blast
  have i2: "0 < length (workers executing_pool)" and ne2: "workers executing_pool ! 0 \<noteq> Exited"
    using l by simp_all
  from worker_exit_condition[OF h2 st2 i2 ne2] l x hp
  have r: "workers s2 ! 0 = Acquire \<and> executed s2 = [0] \<and>
      heap s2 0 = Some \<lparr>callable = (\<lambda>_. f_example 1), shared = Ready (Value 1)\<rparr>"
    by (auto simp: f_example_def)
  from h f st l x st2 r show ?thesis by simp
qed

lemma notify_one_wakes:
  "if Blocked \<in> set (workers s)
   then \<exists>j<length (workers s). workers s ! j = Blocked \<and>
          workers (notify_one w s) = (workers s)[j := Acquire]
   else workers (notify_one w s) = workers s"
  using notify_one_cases[of w s] by (auto dest: nth_mem)

lemma enqueue_wakes:
  assumes "\<not> stop s"
  shows "tasks (snd (enqueue f a w s)) = tasks s @ [next_id s] \<and>
         (if Blocked \<in> set (workers s)
          then \<exists>j<length (workers s). workers s ! j = Blocked \<and>
                 workers (snd (enqueue f a w s)) = (workers s)[j := Acquire]
          else workers (snd (enqueue f a w s)) = workers s)"
proof -
  let ?s1 = "snd (submit f a s)"
  from assms have w: "workers ?s1 = workers s" and t: "tasks ?s1 = tasks s @ [next_id s]"
    and e: "snd (enqueue f a w s) = notify_one w ?s1"
    by (simp_all add: submit_cases enqueue_def)
  have "tasks (notify_one w ?s1) = tasks ?s1" by (simp add: notify_one_def split: option.splits)
  with t have 1: "tasks (snd (enqueue f a w s)) = tasks s @ [next_id s]" unfolding e by simp
  from notify_one_wakes[of ?s1 w] have 2: "if Blocked \<in> set (workers s)
          then \<exists>j<length (workers s). workers s ! j = Blocked \<and>
                 workers (snd (enqueue f a w s)) = (workers s)[j := Acquire]
          else workers (snd (enqueue f a w s)) = workers s"
    unfolding e w .
  from 1 2 show ?thesis by blast
qed

lemma step_blocked:
  assumes "step e s = Some s'" "i < length (workers s)" "workers s ! i = Blocked"
  shows "workers s' ! i = Blocked \<or> workers s' ! i = Acquire"
  using step_worker[OF assms(1,2)] assms(3) by auto

lemma step_stop_no_block:
  assumes "step e s = Some s'" "i < length (workers s)" "stop s" "workers s ! i \<noteq> Blocked"
  shows "workers s' ! i \<noteq> Blocked"
  using step_worker[OF assms(1,2)] assms(3,4)
  by (auto simp: worker_lock_nth[OF assms(2)] split: if_splits)

lemma step_lock_recheck:
  assumes "step (Lock i) s = Some s'"
  shows "if stop s \<and> tasks s = [] then workers s' ! i = Exited
         else if tasks s = []
           then workers s' ! i = Blocked \<and> tasks s' = tasks s \<and> claimed s' = claimed s
           else workers s' ! i = Running (hd (tasks s)) \<and> tasks s' = tl (tasks s)"
  using assms by (auto simp: worker_lock_def split: if_splits)

lemma no_blocked_after_notify_all:
  assumes "pool_inv n s" "dtor s = Joining k \<or> dtor s = Returned"
  shows "Blocked \<notin> set (workers s)"
proof -
  from assms(1) have c: "inv_ctl n s" by (simp add: pool_inv_def)
  from assms(2) show ?thesis
  proof
    assume "dtor s = Joining k"
    with c show ?thesis by (simp add: inv_ctl_def)
  next
    assume "dtor s = Returned"
    with c have "\<forall>w\<in>set (workers s). w = Exited" by (simp add: inv_ctl_def)
    then show ?thesis by auto
  qed
qed

text \<open>
  C8. A successful \<open>enqueue\<close> puts its task at the back of the queue in its critical
  section and then unblocks one blocked worker if there is one; \<open>notify_all\<close> of the
  destructor leaves no worker blocked. A blocked worker can only move to the point where
  it evaluates the wait predicate again, and what it does there depends on the flag and
  the queue as they are then: it ends only on a set flag and an empty queue, goes back to
  waiting without touching the queue when the queue is empty and the flag is not set,
  and takes a task only when there is one. Once the flag is set no worker starts to
  wait, and after \<open>notify_all\<close> of the destructor no worker is blocked. While a worker
  is blocked, every queued task is matched by a \<open>notify_one\<close> still to come or by a
  worker that is awake; and every run can be continued until all workers have ended and
  the destructor has returned.
\<close>

theorem wakeups:
  fixes es :: "('a, 'v) event list"
  assumes "exec es (ThreadPool n) = Some s" and "step e s = Some s'"
    and "i < length (workers s)"
  shows "(\<not> stop s \<longrightarrow>
            tasks (snd (enqueue f a w s)) = tasks s @ [next_id s] \<and>
            (if Blocked \<in> set (workers s)
             then \<exists>j<length (workers s). workers s ! j = Blocked \<and>
                    workers (snd (enqueue f a w s)) = (workers s)[j := Acquire]
             else workers (snd (enqueue f a w s)) = workers s)) \<and>
         Blocked \<notin> set (workers (notify_all s)) \<and>
         (workers s ! i = Blocked \<longrightarrow> workers s' ! i = Blocked \<or> workers s' ! i = Acquire) \<and>
         (e = Lock i \<longrightarrow>
            (if stop s \<and> tasks s = [] then workers s' ! i = Exited
             else if tasks s = []
               then workers s' ! i = Blocked \<and> tasks s' = tasks s \<and> claimed s' = claimed s
               else workers s' ! i = Running (hd (tasks s)) \<and> tasks s' = tl (tasks s))) \<and>
         (stop s \<longrightarrow> workers s ! i \<noteq> Blocked \<longrightarrow> workers s' ! i \<noteq> Blocked) \<and>
         (dtor s = Joining k \<or> dtor s = Returned \<longrightarrow> Blocked \<notin> set (workers s)) \<and>
         (Blocked \<in> set (workers s) \<longrightarrow> length (tasks s) \<le> owed s + awake (workers s)) \<and>
         (\<exists>(es' :: ('a, 'v) event list) s2. exec es' s = Some s2 \<and> dtor s2 = Returned)"
proof -
  have 1: "\<not> stop s \<longrightarrow>
            tasks (snd (enqueue f a w s)) = tasks s @ [next_id s] \<and>
            (if Blocked \<in> set (workers s)
             then \<exists>j<length (workers s). workers s ! j = Blocked \<and>
                    workers (snd (enqueue f a w s)) = (workers s)[j := Acquire]
             else workers (snd (enqueue f a w s)) = workers s)"
    using enqueue_wakes[of s f a w] by blast
  have 2: "Blocked \<notin> set (workers (notify_all s))"
    by (simp add: notify_all_def set_wake)
  have 3: "workers s ! i = Blocked \<longrightarrow> workers s' ! i = Blocked \<or> workers s' ! i = Acquire"
    using step_blocked[OF assms(2,3)] by blast
  have 4: "e = Lock i \<longrightarrow>
            (if stop s \<and> tasks s = [] then workers s' ! i = Exited
             else if tasks s = []
               then workers s' ! i = Blocked \<and> tasks s' = tasks s \<and> claimed s' = claimed s
               else workers s' ! i = Running (hd (tasks s)) \<and> tasks s' = tl (tasks s))"
    using step_lock_recheck[of i s s'] assms(2) by blast
  have 5: "stop s \<longrightarrow> workers s ! i \<noteq> Blocked \<longrightarrow> workers s' ! i \<noteq> Blocked"
    using step_stop_no_block[OF assms(2,3)] by blast
  have 6: "dtor s = Joining k \<or> dtor s = Returned \<longrightarrow> Blocked \<notin> set (workers s)"
    using no_blocked_after_notify_all[OF inv_reach[OF assms(1)], of k] by blast
  have 7: "Blocked \<in> set (workers s) \<longrightarrow> length (tasks s) \<le> owed s + awake (workers s)"
    using wake_reach[OF assms(1)] by (simp add: inv_wake_def)
  from can_finish[OF inv_reach[OF assms(1)], where ?'a = 'a]
  have 8: "\<exists>(es' :: ('a, 'v) event list) s2. exec es' s = Some s2 \<and> dtor s2 = Returned" .
  from 1 2 3 4 5 6 7 8 show ?thesis by blast
qed

theorem wakeups_witness:
  "exec [Lock 0, Submit f_example 1] (ThreadPool 1) = Some waiting_pool \<and>
   step (Notify 0 :: (int, int) event) waiting_pool \<noteq> None \<and>
   workers waiting_pool = [Blocked] \<and> \<not> stop waiting_pool \<and>
   workers (the (step (Notify 0 :: (int, int) event) waiting_pool)) ! 0 = Acquire \<and>
   tasks (snd (enqueue f_example 2 0 waiting_pool)) = [0, 1] \<and>
   workers (snd (enqueue f_example 2 0 waiting_pool)) = [Acquire] \<and>
   Blocked \<notin> set (workers (notify_all waiting_pool))"
proof -
  have h: "exec [Lock 0, Submit f_example 1] (ThreadPool 1) = Some waiting_pool"
    by (simp add: waiting_pool_def run_defs)
  have f: "workers waiting_pool = [Blocked]" "\<not> stop waiting_pool" "tasks waiting_pool = [0]"
    "next_id waiting_pool = 1" "owed waiting_pool = 1"
    by (simp_all add: waiting_pool_def run_defs)
  have "step (Notify 0 :: (int, int) event) waiting_pool \<noteq> None" using f by simp
  then obtain s' where st: "step (Notify 0 :: (int, int) event) waiting_pool = Some s'" by blast
  have a: "workers s' ! 0 = Acquire" using st f by (auto simp: notify_one_def pick_waiter_def)
  have i: "0 < length (workers waiting_pool)" using f by simp
  note w = wakeups[OF h st i, of f_example 2 0 0]
  from w f have 1: "tasks (snd (enqueue f_example 2 0 waiting_pool)) = [0, 1]" by simp
  from w f have "\<exists>j<length (workers waiting_pool). workers waiting_pool ! j = Blocked \<and>
      workers (snd (enqueue f_example 2 0 waiting_pool)) = (workers waiting_pool)[j := Acquire]"
    by simp
  with f have 2: "workers (snd (enqueue f_example 2 0 waiting_pool)) = [Acquire]" by auto
  from w have 3: "Blocked \<notin> set (workers (notify_all waiting_pool))" by blast
  from h st f a 1 2 3 show ?thesis by simp
qed

section \<open>Results and failures\<close>

text \<open>
  C6. When the callable of the task that a worker is executing throws, the packaged task
  stores the exception in the shared state of that task: before the invocation a read of
  the future waits, after it the read rethrows that exception. The invocation returns
  normally to the worker, which is back at the head of its loop and takes the next task
  if the queue has one; no worker has ended abnormally, the stop flag, the destructor,
  the queue and every other task object are as before.
\<close>

theorem failure_captured:
  assumes "exec es (ThreadPool n) = Some s" and "i < length (workers s)"
    and "workers s ! i = Running t" and "heap s t = Some p" and "callable p () = Failure x"
  shows "workers (worker_run i t s) = (workers s)[i := Acquire] \<and>
         Crashed \<notin> set (workers (worker_run i t s)) \<and>
         stop (worker_run i t s) = stop s \<and> dtor (worker_run i t s) = dtor s \<and>
         tasks (worker_run i t s) = tasks s \<and>
         (\<forall>u. u \<noteq> t \<longrightarrow> heap (worker_run i t s) u = heap s u) \<and>
         future_get s \<lparr>state_of = t, valid = True\<rparr> = (Blocks, \<lparr>state_of = t, valid = True\<rparr>) \<and>
         future_get (worker_run i t s) \<lparr>state_of = t, valid = True\<rparr> =
           (Rethrows x, \<lparr>state_of = t, valid = False\<rparr>) \<and>
         (tasks s \<noteq> [] \<longrightarrow>
            workers (worker_lock i (worker_run i t s)) ! i = Running (hd (tasks s)))"
proof -
  note inv = inv_reach[OF assms(1)]
  from worker_run_ok[OF inv assms(2,3)] assms(4)
  have pe: "shared p = Pending"
    and eq: "worker_run i t s = s\<lparr>workers := (workers s)[i := Acquire],
        heap := (heap s)(t \<mapsto> p\<lparr>shared := Ready (callable p ())\<rparr>),
        executed := executed s @ [t]\<rparr>" by auto
  from inv_worker_run[OF inv assms(2,3)] have "Crashed \<notin> set (workers (worker_run i t s))"
    by (simp add: pool_inv_def inv_ctl_def)
  moreover have "future_get s \<lparr>state_of = t, valid = True\<rparr> = (Blocks, \<lparr>state_of = t, valid = True\<rparr>)"
    using assms(4) pe by (simp add: future_get_def)
  moreover have "future_get (worker_run i t s) \<lparr>state_of = t, valid = True\<rparr> =
           (Rethrows x, \<lparr>state_of = t, valid = False\<rparr>)"
    unfolding eq using assms(5) by (simp add: future_get_def)
  moreover have "tasks s \<noteq> [] \<longrightarrow>
            workers (worker_lock i (worker_run i t s)) ! i = Running (hd (tasks s))"
    unfolding eq using assms(2) by (simp add: worker_lock_def)
  ultimately show ?thesis unfolding eq by simp
qed

theorem failure_captured_witness:
  "exec [Submit f_failing 1, Notify 0, Submit f_example 2, Notify 0, Lock 0] (ThreadPool 1)
     = Some failing_pool \<and>
   workers failing_pool = [Running 0] \<and> tasks failing_pool = [1] \<and>
   workers (worker_run 0 0 failing_pool) = [Acquire] \<and>
   future_get (worker_run 0 0 failing_pool) \<lparr>state_of = 0, valid = True\<rparr> =
     (Rethrows (Thrown ''task failed''), \<lparr>state_of = 0, valid = False\<rparr>) \<and>
   workers (worker_lock 0 (worker_run 0 0 failing_pool)) ! 0 = Running 1"
proof -
  have h: "exec [Submit f_failing 1, Notify 0, Submit f_example 2, Notify 0, Lock 0] (ThreadPool 1)
     = Some failing_pool"
    by (simp add: failing_pool_def run_defs)
  have f: "workers failing_pool = [Running 0]" "tasks failing_pool = [1]"
    "heap failing_pool 0 = Some \<lparr>callable = (\<lambda>_. f_failing 1), shared = Pending\<rparr>"
    by (simp_all add: failing_pool_def run_defs)
  have i: "0 < length (workers failing_pool)" and r: "workers failing_pool ! 0 = Running 0"
    using f by simp_all
  have c: "callable \<lparr>callable = (\<lambda>_. f_failing 1), shared = Pending\<rparr> () =
      Failure (Thrown ''task failed'')"
    by (simp add: f_failing_def)
  from failure_captured[OF h i r f(3) c] h f show ?thesis by simp
qed

lemma step_task_object:
  assumes "step e s = Some s'" "t < next_id s" "heap s t = Some p"
  shows "t < next_id s' \<and> (\<exists>q. heap s' t = Some q \<and> callable q = callable p)"
proof (cases e)
  case (Submit f a)
  with assms show ?thesis by (auto simp: submit_cases split: if_splits)
next
  case (Notify w)
  with assms show ?thesis by (auto simp: notify_one_def split: if_splits option.splits)
next
  case (Spurious i)
  with assms show ?thesis by (auto split: if_splits)
next
  case (Lock i)
  with assms show ?thesis by (auto simp: worker_lock_def split: if_splits)
next
  case (Run i)
  with assms show ?thesis
    by (auto simp: worker_run_def invoke_def
        split: if_splits option.splits wstate.splits cell.splits)
next
  case Dtor_stop
  with assms show ?thesis by (auto simp: dtor_stop_def split: if_splits)
next
  case Dtor_notify
  with assms show ?thesis by (auto simp: notify_all_def split: if_splits)
next
  case Dtor_join
  with assms show ?thesis
    by (auto simp: dtor_join_def heap_destroy_members split: if_splits dstate.splits)
qed

lemma exec_task_object:
  "exec es s = Some s' \<Longrightarrow> t < next_id s \<Longrightarrow> heap s t = Some p \<Longrightarrow>
   t < next_id s' \<and> (\<exists>q. heap s' t = Some q \<and> callable q = callable p)"
proof (induction es arbitrary: s p)
  case Nil
  then show ?case by simp
next
  case (Cons e es)
  from Cons.prems(1) obtain s1 where s1: "step e s = Some s1" and r: "exec es s1 = Some s'"
    by (auto split: option.splits)
  from step_task_object[OF s1 Cons.prems(2,3)] obtain q where
    q: "t < next_id s1" "heap s1 t = Some q" "callable q = callable p" by blast
  from Cons.IH[OF r q(1,2)] q(3) show ?case by simp
qed

lemma enqueue_ok:
  assumes "enqueue f a w s = (Inr h, s1)"
  shows "\<not> stop s" and "h = \<lparr>state_of = next_id s, valid = True\<rparr>"
    and "s1 = notify_one w (snd (submit f a s))"
    and "next_id s \<in> set (accepted s1)" and "next_id s < next_id s1"
    and "\<exists>p. heap s1 (next_id s) = Some p \<and> callable p = (\<lambda>_. f a)"
proof -
  from assms show ns: "\<not> stop s" by (auto simp: enqueue_def submit_cases split: if_splits)
  with assms show "h = \<lparr>state_of = next_id s, valid = True\<rparr>"
    and s1: "s1 = notify_one w (snd (submit f a s))"
    by (auto simp: enqueue_def submit_cases)
  from ns show "next_id s \<in> set (accepted s1)" "next_id s < next_id s1"
    "\<exists>p. heap s1 (next_id s) = Some p \<and> callable p = (\<lambda>_. f a)"
    unfolding s1 by (simp_all add: submit_cases notify_one_def split: option.splits)
qed

lemma no_workers_no_abandon:
  assumes "pool_inv n s" "0 < n"
  shows "abandoned s = []"
proof (cases "dtor s = Returned")
  case True
  from drained(3)[OF assms(1) True assms(2)] show ?thesis .
next
  case False
  with assms(1) show ?thesis by (simp add: pool_inv_def inv_ctl_def)
qed

text \<open>
  C7, as amended. After a successful \<open>enqueue\<close> of \<open>f\<close> with arguments \<open>a\<close>, in every
  continuation of the run a read of the returned future waits as long as the task has
  neither been executed nor been destroyed, and after the execution it returns exactly
  the value \<open>f a\<close> or rethrows the failure that \<open>f a\<close> raised. A task is destroyed
  unexecuted only with the queue of a pool without workers; the read then rethrows
  \<open>broken_promise\<close>. A read that returns or rethrows leaves the future without shared
  state (\<open>valid()\<close> is false), and a further read of it does not return the value.
\<close>

theorem future_get_result:
  assumes "exec es (ThreadPool n) = Some s" and "enqueue f a w s = (Inr h, s1)"
    and "exec es' s1 = Some s2"
  shows "h = \<lparr>state_of = next_id s, valid = True\<rparr> \<and>
         (state_of h \<notin> set (executed s2) \<and> state_of h \<notin> set (abandoned s2) \<longrightarrow>
            future_get s2 h = (Blocks, h)) \<and>
         (state_of h \<in> set (executed s2) \<longrightarrow>
            future_get s2 h =
              (case f a of Value v \<Rightarrow> Returns v | Failure x \<Rightarrow> Rethrows x, h\<lparr>valid := False\<rparr>)) \<and>
         (state_of h \<in> set (abandoned s2) \<longrightarrow>
            state_of h \<notin> set (executed s2) \<and>
            future_get s2 h = (Rethrows Broken_promise, h\<lparr>valid := False\<rparr>)) \<and>
         (0 < n \<longrightarrow> abandoned s2 = []) \<and>
         future_get s2 (h\<lparr>valid := False\<rparr>) = (No_state, h\<lparr>valid := False\<rparr>)"
proof -
  note e = enqueue_ok[OF assms(2)]
  let ?t = "next_id s"
  note i0 = inv_reach[OF assms(1)]
  from i0 e(1) have "dtor s \<noteq> Returned" by (auto simp: pool_inv_def inv_ctl_def)
  with inv_notify_one[OF inv_submit[OF i0], of w f a] e(3)
  have "pool_inv n s1" by simp
  from inv_exec[OF this assms(3)] have i2: "pool_inv n s2" .
  then have "inv_heap s2" by (simp add: pool_inv_def)
  moreover from exec_accepted[OF assms(3) e(4)] have "?t \<in> set (accepted s2)" .
  ultimately obtain q where q: "heap s2 ?t = Some q"
    "shared q = (if ?t \<in> set (executed s2) then Ready (callable q ())
                 else if ?t \<in> set (abandoned s2) then Ready (Failure Broken_promise)
                 else Pending)"
    unfolding inv_heap_def by blast
  from e(6) obtain p where p: "heap s1 ?t = Some p" "callable p = (\<lambda>_. f a)" by blast
  from exec_task_object[OF assms(3) e(5) p(1)] q(1) p(2) have "callable q = (\<lambda>_. f a)" by auto
  with q(2) have sh: "shared q = (if ?t \<in> set (executed s2) then Ready (f a)
                 else if ?t \<in> set (abandoned s2) then Ready (Failure Broken_promise)
                 else Pending)" by simp
  have 1: "state_of h \<notin> set (executed s2) \<and> state_of h \<notin> set (abandoned s2) \<longrightarrow>
            future_get s2 h = (Blocks, h)"
    using q(1) sh e(2) by (simp add: future_get_def)
  have 2: "state_of h \<in> set (executed s2) \<longrightarrow>
            future_get s2 h =
              (case f a of Value v \<Rightarrow> Returns v | Failure x \<Rightarrow> Rethrows x, h\<lparr>valid := False\<rparr>)"
    using q(1) sh e(2) by (cases "f a") (simp_all add: future_get_def)
  from partition_inv(2)[OF i2]
  have dis: "state_of h \<in> set (abandoned s2) \<longrightarrow> state_of h \<notin> set (executed s2)" by auto
  have 3: "state_of h \<in> set (abandoned s2) \<longrightarrow>
            state_of h \<notin> set (executed s2) \<and>
            future_get s2 h = (Rethrows Broken_promise, h\<lparr>valid := False\<rparr>)"
    using q(1) sh e(2) dis by (simp add: future_get_def)
  have 4: "0 < n \<longrightarrow> abandoned s2 = []" using no_workers_no_abandon[OF i2] by blast
  have 5: "future_get s2 (h\<lparr>valid := False\<rparr>) = (No_state, h\<lparr>valid := False\<rparr>)"
    by (simp add: future_get_def)
  from e(2) 1 2 3 4 5 show ?thesis by blast
qed

theorem future_get_result_witness:
  "exec ([] :: (int, int) event list) (ThreadPool 1) = Some (ThreadPool 1) \<and>
   fst (enqueue f_example 1 0 (ThreadPool 1 :: int pool)) = Inr ret \<and>
   future_get (snd (enqueue f_example 1 0 (ThreadPool 1))) ret = (Blocks, ret) \<and>
   exec [Lock 0 :: (int, int) event, Run 0] (snd (enqueue f_example 1 0 (ThreadPool 1))) \<noteq> None \<and>
   future_get (the (exec [Lock 0 :: (int, int) event, Run 0]
       (snd (enqueue f_example 1 0 (ThreadPool 1))))) ret
     = (Returns 1, ret\<lparr>valid := False\<rparr>)"
proof -
  let ?s1 = "snd (enqueue f_example 1 0 (ThreadPool 1 :: int pool))"
  have h: "exec ([] :: (int, int) event list) (ThreadPool 1) = Some (ThreadPool 1)" by simp
  have e: "enqueue f_example 1 0 (ThreadPool 1 :: int pool) = (Inr ret, ?s1)"
    by (simp add: ret_def run_defs)
  have h0: "exec ([] :: (int, int) event list) ?s1 = Some ?s1" by simp
  have "exec [Lock 0 :: (int, int) event, Run 0] ?s1 \<noteq> None" by (simp add: run_defs)
  then obtain s2 where h2: "exec [Lock 0 :: (int, int) event, Run 0] ?s1 = Some s2" by blast
  have x0: "executed ?s1 = []" "abandoned ?s1 = []" by (simp_all add: run_defs)
  have x2: "executed s2 = [0]" using h2 by (auto simp: run_defs)
  from future_get_result[OF h e h0] x0 have 1: "future_get ?s1 ret = (Blocks, ret)"
    by (simp add: ret_def)
  from future_get_result[OF h e h2] x2
  have 2: "future_get s2 ret = (Returns 1, ret\<lparr>valid := False\<rparr>)"
    by (simp add: ret_def f_example_def)
  have fe: "fst (enqueue f_example 1 0 (ThreadPool 1 :: int pool)) = Inr ret"
    by (simp add: ret_def run_defs)
  from h fe h2 1 2 show ?thesis by simp
qed

text \<open>
  C7 as stated fails in two places. In \<open>main\<close> of example.cpp the first \<open>ret.get()\<close>
  returns 1, and a second \<open>get()\<close> on the same future finds no shared state. And the
  future of a task submitted to a pool without workers is made ready by the destruction
  of the pool, without the task having run: the read rethrows \<open>broken_promise\<close>.
\<close>

theorem get_twice_or_after_destruction:
  "map_option dtor (exec main_work (ThreadPool 4)) = Some Alive \<and>
   future_get main_final ret = (Returns 1, ret\<lparr>valid := False\<rparr>) \<and>
   fst (future_get main_final (snd (future_get main_final ret))) = No_state \<and>
   map_option executed (exec zero_run1 (ThreadPool 0)) = Some [] \<and>
   fst (future_get (the (exec zero_run1 (ThreadPool 0))) ret) = Rethrows Broken_promise"
  by (simp add: main_final_def ret_def main_work_def zero_run1_def run_defs future_get_def
      f_example_def eval_nat_numeral)

section \<open>A pool without workers\<close>

lemma dtor_alone:
  assumes "workers s = []" "dtor s = Alive"
  shows "\<exists>s'. exec (dtor_events 0) s = Some s' \<and> dtor s' = Returned \<and>
           executed s' = executed s \<and> abandoned s' = abandoned s @ tasks s"
  using assms
  by (simp add: dtor_events_def dtor_stop_def notify_all_def dtor_join_def)

text \<open>
  C9, as amended. A pool constructed with zero threads has no workers. In every state of
  every run of it nothing has been dequeued or executed; \<open>enqueue\<close> on it, while it is
  not stopped, returns a future and puts the task in the queue; a read of the future of a
  queued task waits; and its destructor runs through at once without executing anything.
  The tasks then in the queue are destroyed with it, and from then on a read of their
  futures does not wait but rethrows \<open>broken_promise\<close>.
\<close>

theorem zero_workers:
  fixes es :: "('a, 'v) event list"
  assumes "exec es (ThreadPool 0) = Some s"
  shows "workers s = [] \<and> claimed s = [] \<and> executed s = [] \<and>
         accepted s = tasks s @ abandoned s \<and> (dtor s \<noteq> Returned \<longrightarrow> abandoned s = []) \<and>
         (\<forall>t\<in>set (tasks s).
            future_get s \<lparr>state_of = t, valid = True\<rparr> = (Blocks, \<lparr>state_of = t, valid = True\<rparr>)) \<and>
         (\<forall>t\<in>set (abandoned s).
            future_get s \<lparr>state_of = t, valid = True\<rparr> =
              (Rethrows Broken_promise, \<lparr>state_of = t, valid = False\<rparr>)) \<and>
         (\<not> stop s \<longrightarrow>
            fst (enqueue f a w s) = Inr \<lparr>state_of = next_id s, valid = True\<rparr> \<and>
            tasks (snd (enqueue f a w s)) = tasks s @ [next_id s] \<and>
            workers (snd (enqueue f a w s)) = []) \<and>
         (dtor s = Alive \<longrightarrow>
            map_option dtor (exec (dtor_events 0 :: ('a, 'v) event list) s) = Some Returned \<and>
            map_option executed (exec (dtor_events 0 :: ('a, 'v) event list) s) = Some [] \<and>
            map_option abandoned (exec (dtor_events 0 :: ('a, 'v) event list) s)
              = Some (tasks s))"
proof -
  note i = inv_reach[OF assms]
  from i have w: "workers s = []" by (simp add: pool_inv_def inv_ctl_def)
  from i have "\<forall>c\<in>set (claimed s). fst c < 0" by (simp add: pool_inv_def inv_ctl_def)
  then have c: "claimed s = []" by (cases "claimed s") auto
  from partition_inv(3)[OF i] w c have x: "executed s = []" by simp
  from i have f: "inv_fifo s" by (simp add: pool_inv_def)
  from fifoD[OF f] c have t: "accepted s = tasks s @ abandoned s" by simp
  from i have ab: "dtor s \<noteq> Returned \<longrightarrow> abandoned s = []" by (simp add: pool_inv_def inv_ctl_def)
  from partition_inv(2)[OF i] have dis: "\<forall>t\<in>set (tasks s). t \<notin> set (abandoned s)" by auto
  from i have h: "inv_heap s" by (simp add: pool_inv_def)
  have g1: "\<forall>t\<in>set (tasks s).
            future_get s \<lparr>state_of = t, valid = True\<rparr> = (Blocks, \<lparr>state_of = t, valid = True\<rparr>)"
  proof
    fix u assume u: "u \<in> set (tasks s)"
    with t have "u \<in> set (accepted s)" by simp
    with h obtain p where "heap s u = Some p"
      "shared p = (if u \<in> set (executed s) then Ready (callable p ())
                   else if u \<in> set (abandoned s) then Ready (Failure Broken_promise)
                   else Pending)"
      unfolding inv_heap_def by blast
    with x dis u
    show "future_get s \<lparr>state_of = u, valid = True\<rparr> = (Blocks, \<lparr>state_of = u, valid = True\<rparr>)"
      by (simp add: future_get_def)
  qed
  have g2: "\<forall>t\<in>set (abandoned s).
            future_get s \<lparr>state_of = t, valid = True\<rparr> =
              (Rethrows Broken_promise, \<lparr>state_of = t, valid = False\<rparr>)"
  proof
    fix u assume u: "u \<in> set (abandoned s)"
    with t have "u \<in> set (accepted s)" by simp
    with h obtain p where "heap s u = Some p"
      "shared p = (if u \<in> set (executed s) then Ready (callable p ())
                   else if u \<in> set (abandoned s) then Ready (Failure Broken_promise)
                   else Pending)"
      unfolding inv_heap_def by blast
    with x u
    show "future_get s \<lparr>state_of = u, valid = True\<rparr> =
              (Rethrows Broken_promise, \<lparr>state_of = u, valid = False\<rparr>)"
      by (simp add: future_get_def)
  qed
  have e: "\<not> stop s \<longrightarrow>
            fst (enqueue f a w s) = Inr \<lparr>state_of = next_id s, valid = True\<rparr> \<and>
            tasks (snd (enqueue f a w s)) = tasks s @ [next_id s] \<and>
            workers (snd (enqueue f a w s)) = []"
    using w by (simp add: enqueue_def submit_cases notify_one_def split: option.splits)
  have d: "dtor s = Alive \<longrightarrow>
            map_option dtor (exec (dtor_events 0 :: ('a, 'v) event list) s) = Some Returned \<and>
            map_option executed (exec (dtor_events 0 :: ('a, 'v) event list) s) = Some [] \<and>
            map_option abandoned (exec (dtor_events 0 :: ('a, 'v) event list) s)
              = Some (tasks s)"
  proof
    assume al: "dtor s = Alive"
    with w have "\<exists>s'. exec (dtor_events 0 :: ('a, 'v) event list) s = Some s' \<and>
        dtor s' = Returned \<and> executed s' = executed s \<and> abandoned s' = abandoned s @ tasks s"
      by (rule dtor_alone)
    then obtain s' where "exec (dtor_events 0 :: ('a, 'v) event list) s = Some s'"
      "dtor s' = Returned" "executed s' = executed s" "abandoned s' = abandoned s @ tasks s"
      by blast
    with x ab al
    show "map_option dtor (exec (dtor_events 0 :: ('a, 'v) event list) s) = Some Returned \<and>
          map_option executed (exec (dtor_events 0 :: ('a, 'v) event list) s) = Some [] \<and>
          map_option abandoned (exec (dtor_events 0 :: ('a, 'v) event list) s) = Some (tasks s)"
      by simp
  qed
  from w c x t ab g1 g2 e d show ?thesis by blast
qed

theorem zero_workers_witness:
  "exec [Submit f_example 1, Notify 0] (ThreadPool 0) \<noteq> None \<and>
   tasks (the (exec [Submit f_example 1, Notify 0] (ThreadPool 0))) = [0] \<and>
   executed (the (exec [Submit f_example 1, Notify 0] (ThreadPool 0))) = [] \<and>
   future_get (the (exec [Submit f_example 1, Notify 0] (ThreadPool 0))) ret = (Blocks, ret) \<and>
   map_option abandoned (exec (dtor_events 0 :: (int, int) event list)
     (the (exec [Submit f_example 1, Notify 0] (ThreadPool 0)))) = Some [0]"
proof -
  have "exec [Submit f_example 1, Notify 0] (ThreadPool 0) \<noteq> None" by (simp add: run_defs)
  then obtain s where h: "exec [Submit f_example 1, Notify 0] (ThreadPool 0) = Some s" by blast
  have a: "tasks s = [0]" "dtor s = Alive" using h by (auto simp: run_defs)
  note z = zero_workers[OF h, of f_example 2 0]
  from z have 2: "executed s = []" by blast
  from z a have 3: "future_get s ret = (Blocks, ret)" by (simp add: ret_def)
  from z a have 4: "map_option abandoned (exec (dtor_events 0 :: (int, int) event list) s)
      = Some [0]"
    by simp
  from h a 2 3 4 show ?thesis by simp
qed

text \<open>
  C9 as stated fails in its last part: when the pool without workers has been destroyed,
  a read of the future of the task that was in its queue does not wait; it rethrows
  \<open>broken_promise\<close>.
\<close>

theorem zero_workers_get_after_destruction:
  "map_option dtor (exec zero_run1 (ThreadPool 0)) = Some Returned \<and>
   map_option tasks (exec [Submit f_example 1, Notify 0] (ThreadPool 0)) = Some [0] \<and>
   future_get (the (exec [Submit f_example 1, Notify 0] (ThreadPool 0))) ret = (Blocks, ret) \<and>
   future_get (the (exec zero_run1 (ThreadPool 0))) ret
     = (Rethrows Broken_promise, ret\<lparr>valid := False\<rparr>)"
  by (simp add: zero_run1_def ret_def run_defs future_get_def)

end
